theory Spec2Isabelle
  imports Main "HOL-Library.Word"
begin

section \<open>Bytes, C integer conversions and the allocator\<close>

text \<open>
  The string library works on raw bytes. A byte is an 8-bit word. The C types
  \<open>size_t\<close> and \<open>ssize_t\<close> are 64 bits wide (the library selects the 64-bit
  header only when \<open>LONG_MAX == LLONG_MAX\<close>); arithmetic on them is written
  out with its wrap-around.
\<close>

type_synonym byte = "8 word"
type_synonym addr = nat

definition to_size_t :: "int \<Rightarrow> nat" where
  "to_size_t x = nat (x mod 2 ^ 64)"

definition to_ssize_t :: "int \<Rightarrow> int" where
  "to_ssize_t x = (x + 2 ^ 63) mod 2 ^ 64 - 2 ^ 63"

definition to_uint :: "int \<Rightarrow> int" where
  "to_uint x = x mod 2 ^ 32"

definition size_add :: "nat \<Rightarrow> nat \<Rightarrow> nat" where
  "size_add a b = (a + b) mod 2 ^ 64"

text \<open>
  Everything that stops the C program instead of returning: the default
  out-of-memory handler aborts, \<open>assert\<close> aborts, and undefined behaviour
  (freeing a pointer that is not the start of a live block, dereferencing
  \<open>NULL\<close>, reading or writing outside a block, a \<open>va_arg\<close> of the wrong
  type, overflow of a signed \<open>int\<close>) is made a result of its own.
\<close>

datatype error =
    Oom_abort
  | Assert_failed
  | Invalid_free
  | Null_deref
  | Out_of_bounds
  | Bad_vararg
  | Int_overflow

text \<open>
  The allocator state (ni\_malloc.c over the system malloc). \<open>live\<close> holds the
  start addresses of the blocks in use, \<open>brk\<close> is the next unused address,
  \<open>grant\<close> says whether the system allocator satisfies a request of a given
  size, \<open>moves\<close> whether a realloc to a given size relocates the block,
  \<open>oom_abort\<close> whether the installed out-of-memory handler aborts (the
  default) or returns, and \<open>junk\<close> is what uninitialised memory holds.
  \<open>NULL\<close> is address 0.
\<close>

record heap =
  live :: "addr list"
  brk :: addr
  grant :: "nat \<Rightarrow> bool"
  moves :: "nat \<Rightarrow> bool"
  oom_abort :: bool
  junk :: "addr \<Rightarrow> byte"

definition ni_malloc :: "heap \<Rightarrow> nat \<Rightarrow> error + (addr \<times> heap)" where
  "ni_malloc h sz =
     (if grant h sz
      then Inr (brk h, h\<lparr>live := brk h # live h, brk := brk h + sz + 1\<rparr>)
      else if oom_abort h then Inl Oom_abort
      else Inr (0, h))"

definition ni_realloc :: "heap \<Rightarrow> addr \<Rightarrow> nat \<Rightarrow> error + (addr \<times> heap)" where
  "ni_realloc h ptr sz =
     (if ptr = 0 then ni_malloc h sz
      else if ptr \<notin> set (live h) then Inl Invalid_free
      else if \<not> grant h sz then (if oom_abort h then Inl Oom_abort else Inr (0, h))
      else if moves h sz
      then Inr (brk h, h\<lparr>live := brk h # removeAll ptr (live h), brk := brk h + sz + 1\<rparr>)
      else Inr (ptr, h))"

definition ni_free :: "heap \<Rightarrow> addr \<Rightarrow> error + heap" where
  "ni_free h ptr =
     (if ptr = 0 then Inr h
      else if ptr \<in> set (live h) then Inr (h\<lparr>live := removeAll ptr (live h)\<rparr>)
      else Inl Invalid_free)"

definition ni_string_malloc :: "heap \<Rightarrow> nat \<Rightarrow> error + (addr \<times> heap)" where
  "ni_string_malloc h sz = ni_malloc h sz"

definition ni_string_realloc :: "heap \<Rightarrow> addr \<Rightarrow> nat \<Rightarrow> error + (addr \<times> heap)" where
  "ni_string_realloc h ptr sz = ni_realloc h ptr sz"

definition ni_string_ptr_free :: "heap \<Rightarrow> addr \<Rightarrow> error + heap" where
  "ni_string_ptr_free h ptr = ni_free h ptr"

text \<open>The bytes of a block region of \<open>n\<close> bytes at address \<open>a\<close> that keeps the
  first bytes of \<open>old\<close> (all of a fresh block is uninitialised).\<close>

definition region :: "heap \<Rightarrow> addr \<Rightarrow> nat \<Rightarrow> byte list \<Rightarrow> byte list" where
  "region h a n old = take n old @ map (junk h) [a + length old ..< a + n]"

section \<open>The header codec (ni\_string.h)\<close>

text \<open>
  A string is one heap block: a header, then the data bytes and a terminator.
  The handle the caller holds points at the first data byte. The record keeps
  the start address of the block (\<open>base\<close>), the header type (the three low
  bits of the flags byte), the length field (for type 5 the five high bits of
  the flags byte), the alloc field (absent for type 5) and the bytes from the
  handle to the end of the block (\<open>buf\<close>).
\<close>

datatype hdr_type =
    NI_STRING_TYPE_5
  | NI_STRING_TYPE_8
  | NI_STRING_TYPE_16
  | NI_STRING_TYPE_32
  | NI_STRING_TYPE_64

record ni_string =
  base :: addr
  htype :: hdr_type
  hlen :: nat
  halloc :: nat
  buf :: "byte list"

definition NI_STRING_MAX_PREALLOC :: nat where
  "NI_STRING_MAX_PREALLOC = 1024 * 1024"

fun type_code :: "hdr_type \<Rightarrow> nat" where
  "type_code NI_STRING_TYPE_5 = 0"
| "type_code NI_STRING_TYPE_8 = 1"
| "type_code NI_STRING_TYPE_16 = 2"
| "type_code NI_STRING_TYPE_32 = 3"
| "type_code NI_STRING_TYPE_64 = 4"

text \<open>Width in bits of the length and alloc fields of each header.\<close>

fun field_bits :: "hdr_type \<Rightarrow> nat" where
  "field_bits NI_STRING_TYPE_5 = 5"
| "field_bits NI_STRING_TYPE_8 = 8"
| "field_bits NI_STRING_TYPE_16 = 16"
| "field_bits NI_STRING_TYPE_32 = 32"
| "field_bits NI_STRING_TYPE_64 = 64"

text \<open>Sizes of the packed header structs.\<close>

fun ni_string_hdr_size :: "hdr_type \<Rightarrow> nat" where
  "ni_string_hdr_size NI_STRING_TYPE_5 = 1"
| "ni_string_hdr_size NI_STRING_TYPE_8 = 3"
| "ni_string_hdr_size NI_STRING_TYPE_16 = 5"
| "ni_string_hdr_size NI_STRING_TYPE_32 = 9"
| "ni_string_hdr_size NI_STRING_TYPE_64 = 17"

definition ni_string_req_type :: "nat \<Rightarrow> hdr_type" where
  "ni_string_req_type ni_string_size =
     (if ni_string_size < 2 ^ 5 then NI_STRING_TYPE_5
      else if ni_string_size < 2 ^ 8 then NI_STRING_TYPE_8
      else if ni_string_size < 2 ^ 16 then NI_STRING_TYPE_16
      else if ni_string_size < 2 ^ 32 then NI_STRING_TYPE_32
      else NI_STRING_TYPE_64)"

definition handle :: "ni_string \<Rightarrow> addr" where
  "handle s = base s + ni_string_hdr_size (htype s)"

definition ni_string_len :: "ni_string \<Rightarrow> nat" where
  "ni_string_len s = hlen s"

text \<open>\<open>sh->alloc - sh->len\<close>: for the 8- and 16-bit headers the difference is an
  \<open>int\<close> converted to \<open>size_t\<close>, for the others it wraps at the field width.\<close>

definition ni_string_avail :: "ni_string \<Rightarrow> nat" where
  "ni_string_avail s =
     (case htype s of
        NI_STRING_TYPE_5 \<Rightarrow> 0
      | NI_STRING_TYPE_8 \<Rightarrow> to_size_t (int (halloc s) - int (hlen s))
      | NI_STRING_TYPE_16 \<Rightarrow> to_size_t (int (halloc s) - int (hlen s))
      | NI_STRING_TYPE_32 \<Rightarrow> nat ((int (halloc s) - int (hlen s)) mod 2 ^ 32)
      | NI_STRING_TYPE_64 \<Rightarrow> nat ((int (halloc s) - int (hlen s)) mod 2 ^ 64))"

definition ni_string_set_len :: "ni_string \<Rightarrow> nat \<Rightarrow> ni_string" where
  "ni_string_set_len s newlen = s\<lparr>hlen := newlen mod 2 ^ field_bits (htype s)\<rparr>"

definition ni_string_alloc :: "ni_string \<Rightarrow> nat" where
  "ni_string_alloc s =
     (case htype s of NI_STRING_TYPE_5 \<Rightarrow> hlen s | _ \<Rightarrow> halloc s)"

definition ni_string_set_alloc :: "ni_string \<Rightarrow> nat \<Rightarrow> ni_string" where
  "ni_string_set_alloc s newlen =
     (case htype s of
        NI_STRING_TYPE_5 \<Rightarrow> s
      | _ \<Rightarrow> s\<lparr>halloc := newlen mod 2 ^ field_bits (htype s)\<rparr>)"

text \<open>The logical content: the first \<open>len\<close> data bytes.\<close>

definition content :: "ni_string \<Rightarrow> byte list" where
  "content s = take (ni_string_len s) (buf s)"

text \<open>
  A valid handle: the length does not exceed the capacity, the capacity fits
  its header field and lies inside the block together with the terminator,
  the size of the block is a \<open>size_t\<close> (a type 5 block holds at most 31
  bytes and the terminator), and the byte at offset \<open>len\<close> is zero.
\<close>

definition valid :: "ni_string \<Rightarrow> bool" where
  "valid s \<longleftrightarrow>
     ni_string_len s \<le> ni_string_alloc s \<and>
     ni_string_alloc s < 2 ^ field_bits (htype s) \<and>
     ni_string_alloc s < length (buf s) \<and>
     ni_string_hdr_size (htype s) + length (buf s) < 2 ^ 64 \<and>
     (htype s = NI_STRING_TYPE_5 \<longrightarrow> length (buf s) \<le> 32) \<and>
     buf s ! ni_string_len s = 0"

text \<open>Checked stores into the data region: a store outside the block is
  undefined behaviour.\<close>

definition write_bytes :: "ni_string \<Rightarrow> nat \<Rightarrow> byte list \<Rightarrow> error + ni_string" where
  "write_bytes s off bs =
     (if off + length bs \<le> length (buf s)
      then Inr (s\<lparr>buf := take off (buf s) @ bs @ drop (off + length bs) (buf s)\<rparr>)
      else Inl Out_of_bounds)"

definition put_byte :: "ni_string \<Rightarrow> nat \<Rightarrow> byte \<Rightarrow> error + ni_string" where
  "put_byte s off b = write_bytes s off [b]"

section \<open>Construction and the growth engine (ni\_string.c)\<close>

datatype init_arg = Init_null | Init_noinit | Init_bytes "byte list"

text \<open>\<open>ni_string_new_len\<close>: \<open>Init_bytes bs\<close> stands for a pointer to the
  \<open>initlen\<close> bytes \<open>take initlen bs\<close>; reading more than is there is out of
  bounds. The \<open>memset\<close> for a \<open>NULL\<close> initialiser runs before the result of
  the allocation is checked.\<close>

definition ni_string_new_len :: "heap \<Rightarrow> init_arg \<Rightarrow> nat \<Rightarrow> error + (ni_string option \<times> heap)" where
  "ni_string_new_len h init initlen =
     (let type0 = ni_string_req_type initlen;
          type = (if type0 = NI_STRING_TYPE_5 \<and> initlen = 0 then NI_STRING_TYPE_8 else type0);
          hdrlen = ni_string_hdr_size type;
          sz = size_add (size_add hdrlen initlen) 1
      in case ni_string_malloc h sz of
           Inl e \<Rightarrow> Inl e
         | Inr (sh, h') \<Rightarrow>
             if sh = 0 then (if init = Init_null then Inl Null_deref else Inr (None, h'))
             else
               let fresh = (if init = Init_null then replicate (sz - hdrlen) 0
                            else region h' (sh + hdrlen) (sz - hdrlen) []);
                   s0 = \<lparr>base = sh, htype = type, hlen = initlen mod 2 ^ field_bits type,
                         halloc = initlen mod 2 ^ field_bits type, buf = fresh\<rparr>
               in case (case init of
                          Init_bytes bs \<Rightarrow>
                            if initlen = 0 then Inr s0
                            else if length bs < initlen then Inl Out_of_bounds
                            else write_bytes s0 0 (take initlen bs)
                        | _ \<Rightarrow> Inr s0) of
                    Inl e \<Rightarrow> Inl e
                  | Inr s1 \<Rightarrow>
                      (case put_byte s1 initlen 0 of
                         Inl e \<Rightarrow> Inl e
                       | Inr s2 \<Rightarrow> Inr (Some s2, h')))"

definition ni_string_empty :: "heap \<Rightarrow> error + (ni_string option \<times> heap)" where
  "ni_string_empty h = ni_string_new_len h (Init_bytes []) 0"

definition ni_string_free :: "heap \<Rightarrow> ni_string option \<Rightarrow> error + heap" where
  "ni_string_free h so =
     (case so of
        None \<Rightarrow> Inr h
      | Some s \<Rightarrow> ni_string_ptr_free h (handle s - ni_string_hdr_size (htype s)))"

definition ni_string_clear :: "heap \<Rightarrow> ni_string \<Rightarrow> error + (ni_string \<times> heap)" where
  "ni_string_clear h s =
     (case put_byte (ni_string_set_len s 0) 0 0 of
        Inl e \<Rightarrow> Inl e
      | Inr s' \<Rightarrow> Inr (s', h))"

definition ni_string_make_room_for ::
  "heap \<Rightarrow> ni_string \<Rightarrow> nat \<Rightarrow> error + (ni_string option \<times> heap)" where
  "ni_string_make_room_for h s addlen =
     (let avail = ni_string_avail s;
          oldtype = htype s
      in if avail \<ge> addlen then Inr (Some s, h)
         else
           let len = ni_string_len s;
               sh = handle s - ni_string_hdr_size oldtype;
               newlen0 = size_add len addlen;
               newlen = (if newlen0 < NI_STRING_MAX_PREALLOC
                         then (newlen0 * 2) mod 2 ^ 64
                         else size_add newlen0 NI_STRING_MAX_PREALLOC);
               type0 = ni_string_req_type newlen;
               type = (if type0 = NI_STRING_TYPE_5 then NI_STRING_TYPE_8 else type0);
               hdrlen = ni_string_hdr_size type;
               sz = size_add (size_add hdrlen newlen) 1
           in if oldtype = type
              then (case ni_string_realloc h sh sz of
                      Inl e \<Rightarrow> Inl e
                    | Inr (newsh, h') \<Rightarrow>
                        if newsh = 0 then Inr (None, h')
                        else Inr (Some (ni_string_set_alloc
                               (s\<lparr>base := newsh,
                                  buf := region h' (newsh + hdrlen) (sz - hdrlen) (buf s)\<rparr>)
                               newlen), h'))
              else (case ni_string_malloc h sz of
                      Inl e \<Rightarrow> Inl e
                    | Inr (newsh, h1) \<Rightarrow>
                        if newsh = 0 then Inr (None, h1)
                        else if length (buf s) < len + 1 \<or> sz - hdrlen < len + 1
                        then Inl Out_of_bounds
                        else (case ni_string_ptr_free h1 sh of
                                Inl e \<Rightarrow> Inl e
                              | Inr h2 \<Rightarrow>
                                  Inr (Some (ni_string_set_alloc
                                         (ni_string_set_len
                                            (s\<lparr>base := newsh, htype := type,
                                               buf := region h2 (newsh + hdrlen) (sz - hdrlen)
                                                        (take (len + 1) (buf s))\<rparr>)
                                            len)
                                         newlen), h2))))"

definition ni_string_remove_free_space ::
  "heap \<Rightarrow> ni_string \<Rightarrow> error + (ni_string option \<times> heap)" where
  "ni_string_remove_free_space h s =
     (let oldtype = htype s;
          oldhdrlen = ni_string_hdr_size oldtype;
          len = ni_string_len s;
          avail = ni_string_avail s;
          sh = handle s - oldhdrlen
      in if avail = 0 then Inr (Some s, h)
         else
           let type = ni_string_req_type len;
               hdrlen = ni_string_hdr_size type
           in if oldtype = type \<or> type_code type > type_code NI_STRING_TYPE_8
              then (let sz = size_add (size_add oldhdrlen len) 1
                    in case ni_string_realloc h sh sz of
                         Inl e \<Rightarrow> Inl e
                       | Inr (newsh, h') \<Rightarrow>
                           if newsh = 0 then Inr (None, h')
                           else Inr (Some (ni_string_set_alloc
                                  (s\<lparr>base := newsh,
                                     buf := region h' (newsh + oldhdrlen) (sz - oldhdrlen) (buf s)\<rparr>)
                                  len), h'))
              else (let sz = size_add (size_add hdrlen len) 1
                    in case ni_string_malloc h sz of
                         Inl e \<Rightarrow> Inl e
                       | Inr (newsh, h1) \<Rightarrow>
                           if newsh = 0 then Inr (None, h1)
                           else if length (buf s) < len + 1 \<or> sz - hdrlen < len + 1
                           then Inl Out_of_bounds
                           else (case ni_string_ptr_free h1 sh of
                                   Inl e \<Rightarrow> Inl e
                                 | Inr h2 \<Rightarrow>
                                     Inr (Some (ni_string_set_alloc
                                            (ni_string_set_len
                                               (s\<lparr>base := newsh, htype := type,
                                                  buf := region h2 (newsh + hdrlen) (sz - hdrlen)
                                                           (take (len + 1) (buf s))\<rparr>)
                                               len)
                                            len), h2))))"

text \<open>
  \<open>ni_string_incr_len\<close>: one assertion per header type, with the casts the
  source writes. The new length is the header field after the update; the
  terminator goes to that offset.
\<close>

definition ni_string_incr_len :: "heap \<Rightarrow> ni_string \<Rightarrow> int \<Rightarrow> error + (ni_string \<times> heap)" where
  "ni_string_incr_len h s incr =
     (let oldlen = int (hlen s); al = int (halloc s) in
      case (case htype s of
              NI_STRING_TYPE_5 \<Rightarrow>
                if (incr > 0 \<and> to_ssize_t (oldlen + incr) < 32) \<or>
                   (incr < 0 \<and> oldlen \<ge> to_uint (- incr))
                then Inr (s\<lparr>hlen := nat ((oldlen + incr) mod 2 ^ 5)\<rparr>, to_size_t (oldlen + incr))
                else Inl Assert_failed
            | NI_STRING_TYPE_8 \<Rightarrow>
                if (incr \<ge> 0 \<and> al - oldlen \<ge> incr) \<or>
                   (incr < 0 \<and> oldlen \<ge> to_uint (- incr))
                then Inr (s\<lparr>hlen := nat ((oldlen + incr) mod 2 ^ 8)\<rparr>,
                          nat ((oldlen + incr) mod 2 ^ 8))
                else Inl Assert_failed
            | NI_STRING_TYPE_16 \<Rightarrow>
                if (incr \<ge> 0 \<and> al - oldlen \<ge> incr) \<or>
                   (incr < 0 \<and> oldlen \<ge> to_uint (- incr))
                then Inr (s\<lparr>hlen := nat ((oldlen + incr) mod 2 ^ 16)\<rparr>,
                          nat ((oldlen + incr) mod 2 ^ 16))
                else Inl Assert_failed
            | NI_STRING_TYPE_32 \<Rightarrow>
                if (incr \<ge> 0 \<and> (al - oldlen) mod 2 ^ 32 \<ge> to_uint incr) \<or>
                   (incr < 0 \<and> oldlen \<ge> to_uint (- incr))
                then Inr (s\<lparr>hlen := nat ((oldlen + incr) mod 2 ^ 32)\<rparr>,
                          nat ((oldlen + incr) mod 2 ^ 32))
                else Inl Assert_failed
            | NI_STRING_TYPE_64 \<Rightarrow>
                if (incr \<ge> 0 \<and> (al - oldlen) mod 2 ^ 64 \<ge> incr mod 2 ^ 64) \<or>
                   (incr < 0 \<and> oldlen \<ge> (- incr) mod 2 ^ 64)
                then Inr (s\<lparr>hlen := nat ((oldlen + incr) mod 2 ^ 64)\<rparr>,
                          nat ((oldlen + incr) mod 2 ^ 64))
                else Inl Assert_failed) of
        Inl e \<Rightarrow> Inl e
      | Inr (s1, len) \<Rightarrow>
          (case put_byte s1 len 0 of
             Inl e \<Rightarrow> Inl e
           | Inr s2 \<Rightarrow> Inr (s2, h)))"

section \<open>The mutation API\<close>

text \<open>
  A pair of a pointer and a byte count is modelled by the list of the bytes
  read through it; a C string argument is the list of its bytes before the
  terminator. \<open>strlen\<close> of a buffer stops at its first zero byte.
\<close>

definition cstr :: "byte list \<Rightarrow> byte list" where
  "cstr bs = takeWhile (\<lambda>b. b \<noteq> 0) bs"

definition ni_string_grow_zero ::
  "heap \<Rightarrow> ni_string \<Rightarrow> nat \<Rightarrow> error + (ni_string option \<times> heap)" where
  "ni_string_grow_zero h s len =
     (let curlen = ni_string_len s
      in if len \<le> curlen then Inr (Some s, h)
         else (case ni_string_make_room_for h s (len - curlen) of
                 Inl e \<Rightarrow> Inl e
               | Inr (None, h') \<Rightarrow> Inr (None, h')
               | Inr (Some s1, h') \<Rightarrow>
                   (case write_bytes s1 curlen (replicate (size_add (len - curlen) 1) 0) of
                      Inl e \<Rightarrow> Inl e
                    | Inr s2 \<Rightarrow> Inr (Some (ni_string_set_len s2 len), h'))))"

definition ni_string_cat_len ::
  "heap \<Rightarrow> ni_string \<Rightarrow> byte list \<Rightarrow> error + (ni_string option \<times> heap)" where
  "ni_string_cat_len h s t =
     (let curlen = ni_string_len s; len = length t
      in case ni_string_make_room_for h s len of
           Inl e \<Rightarrow> Inl e
         | Inr (None, h') \<Rightarrow> Inr (None, h')
         | Inr (Some s1, h') \<Rightarrow>
             (case write_bytes s1 curlen t of
                Inl e \<Rightarrow> Inl e
              | Inr s2 \<Rightarrow>
                  (case put_byte (ni_string_set_len s2 (size_add curlen len))
                          (size_add curlen len) 0 of
                     Inl e \<Rightarrow> Inl e
                   | Inr s3 \<Rightarrow> Inr (Some s3, h'))))"

definition ni_string_cat ::
  "heap \<Rightarrow> ni_string \<Rightarrow> byte list \<Rightarrow> error + (ni_string option \<times> heap)" where
  "ni_string_cat h s t = ni_string_cat_len h s (cstr t)"

definition ni_string_cpy_len ::
  "heap \<Rightarrow> ni_string \<Rightarrow> byte list \<Rightarrow> error + (ni_string option \<times> heap)" where
  "ni_string_cpy_len h s t =
     (let len = length t
      in case (if ni_string_alloc s < len
               then ni_string_make_room_for h s (to_size_t (int len - int (ni_string_len s)))
               else Inr (Some s, h)) of
           Inl e \<Rightarrow> Inl e
         | Inr (None, h') \<Rightarrow> Inr (None, h')
         | Inr (Some s1, h') \<Rightarrow>
             (case write_bytes s1 0 t of
                Inl e \<Rightarrow> Inl e
              | Inr s2 \<Rightarrow>
                  (case put_byte s2 len 0 of
                     Inl e \<Rightarrow> Inl e
                   | Inr s3 \<Rightarrow> Inr (Some (ni_string_set_len s3 len), h'))))"

definition ni_string_cpy ::
  "heap \<Rightarrow> ni_string \<Rightarrow> byte list \<Rightarrow> error + (ni_string option \<times> heap)" where
  "ni_string_cpy h s t = ni_string_cpy_len h s (cstr t)"

text \<open>\<open>strchr(cset, c)\<close> is non-null when \<open>c\<close> occurs in the C string \<open>cset\<close>
  or is its terminator.\<close>

definition strchr_hit :: "byte list \<Rightarrow> byte \<Rightarrow> bool" where
  "strchr_hit cset c \<longleftrightarrow> c = 0 \<or> c \<in> set (cstr cset)"

function trim_sp :: "byte list \<Rightarrow> byte list \<Rightarrow> int \<Rightarrow> int \<Rightarrow> int" where
  "trim_sp cset b e sp =
     (if sp \<le> e \<and> strchr_hit cset (b ! nat sp) then trim_sp cset b e (sp + 1) else sp)"
  by pat_completeness auto
termination
  by (relation "measure (\<lambda>(cset, b, e, sp). nat (e + 1 - sp))") auto

function trim_ep :: "byte list \<Rightarrow> byte list \<Rightarrow> int \<Rightarrow> int \<Rightarrow> int" where
  "trim_ep cset b sp ep =
     (if ep > sp \<and> strchr_hit cset (b ! nat ep) then trim_ep cset b sp (ep - 1) else ep)"
  by pat_completeness auto
termination
  by (relation "measure (\<lambda>(cset, b, sp, ep). nat (ep - sp))") auto

text \<open>\<open>ni_string_trim\<close>: the two scans run over offsets \<open>0 .. len - 1\<close> of the
  data; a handle whose length reaches past its block makes them read out of
  bounds.\<close>

definition ni_string_trim ::
  "heap \<Rightarrow> ni_string \<Rightarrow> byte list \<Rightarrow> error + (ni_string option \<times> heap)" where
  "ni_string_trim h s cset =
     (if length (buf s) < ni_string_len s then Inl Out_of_bounds
      else
        let e = int (ni_string_len s) - 1;
            sp = trim_sp cset (buf s) e 0;
            ep = trim_ep cset (buf s) sp e;
            len = (if sp > ep then 0 else nat (ep - sp + 1));
            moved = (if sp \<noteq> 0 then write_bytes s 0 (take len (drop (nat sp) (buf s)))
                     else Inr s)
        in case moved of
             Inl e \<Rightarrow> Inl e
           | Inr s1 \<Rightarrow>
               (case put_byte s1 len 0 of
                  Inl e \<Rightarrow> Inl e
                | Inr s2 \<Rightarrow> Inr (Some (ni_string_set_len s2 len), h)))"

text \<open>The stanza \<open>ni_string_range\<close> applies to \<open>start\<close> and to \<open>end\<close>: a negative
  index counts from the end, and one that is still negative becomes 0.\<close>

definition range_index :: "nat \<Rightarrow> int \<Rightarrow> int" where
  "range_index len i =
     (if i < 0 then (let x = to_ssize_t (int len + i) in if x < 0 then 0 else x) else i)"

definition ni_string_range ::
  "heap \<Rightarrow> ni_string \<Rightarrow> int \<Rightarrow> int \<Rightarrow> error + (ni_string \<times> heap)" where
  "ni_string_range h s start0 end0 =
     (let len = ni_string_len s
      in if len = 0 then Inr (s, h)
         else
           let start1 = range_index len start0;
               end1 = range_index len end0;
               newlen1 = (if start1 > end1 then 0
                          else to_size_t (to_ssize_t (end1 - start1 + 1)));
               end2 = (if newlen1 \<noteq> 0 \<and> \<not> start1 \<ge> to_ssize_t (int len) \<and>
                          end1 \<ge> to_ssize_t (int len)
                       then to_ssize_t (int len - 1) else end1);
               newlen = (if newlen1 \<noteq> 0
                         then (if start1 \<ge> to_ssize_t (int len) then 0
                               else if end1 \<ge> to_ssize_t (int len)
                               then (if start1 > end2 then 0
                                     else to_size_t (to_ssize_t (end2 - start1 + 1)))
                               else newlen1)
                         else 0);
               start = (if newlen1 \<noteq> 0 then start1 else 0);
               moved = (if start \<noteq> 0 \<and> newlen \<noteq> 0
                        then (if length (buf s) < nat start + newlen then Inl Out_of_bounds
                              else write_bytes s 0 (take newlen (drop (nat start) (buf s))))
                        else Inr s)
           in case moved of
                Inl e \<Rightarrow> Inl e
              | Inr s1 \<Rightarrow>
                  (case put_byte s1 newlen 0 of
                     Inl e \<Rightarrow> Inl e
                   | Inr s2 \<Rightarrow> Inr (ni_string_set_len s2 newlen, h)))"

section \<open>The formatting engine\<close>

text \<open>
  \<open>ni_string_ull2str\<close> and \<open>ni_string_ll2str\<close>: the \<open>do ... while (v)\<close> loop
  produces the digits least significant first, the sign is appended, and the
  buffer is reversed in place. The result is the bytes written before the
  terminator. \<open>-value\<close> is computed in \<open>long long\<close> and converted to
  \<open>unsigned long long\<close>.
\<close>

function ull_digits :: "nat \<Rightarrow> byte list" where
  "ull_digits v = of_nat (48 + v mod 10) # (if v div 10 = 0 then [] else ull_digits (v div 10))"
  by pat_completeness auto
termination
  by (relation "measure (\<lambda>v. v)") auto

definition ni_string_ull2str :: "nat \<Rightarrow> byte list" where
  "ni_string_ull2str v = rev (ull_digits v)"

definition ni_string_ll2str :: "int \<Rightarrow> byte list" where
  "ni_string_ll2str val =
     (let v = nat ((if val < 0 then to_ssize_t (- val) else val) mod 2 ^ 64)
      in rev (ull_digits v @ (if val < 0 then [0x2D] else [])))"

text \<open>
  The scratch-buffer loop of \<open>ni_string_cat_vprintf\<close>. \<open>out\<close> is what the C
  library formatter produces for the format and arguments when given room;
  \<open>vsnprintf\<close> stores its first \<open>buflen - 1\<close> bytes and a terminator.
  \<open>bufp\<close> is the heap address of the scratch buffer, 0 for the buffer on the
  stack. The formatter's output is shorter than \<open>2 ^ 31\<close> bytes, so the
  doubled size does not wrap; a wrapped size is made an error.
\<close>

function vprintf_loop ::
  "heap \<Rightarrow> addr \<Rightarrow> nat \<Rightarrow> byte list \<Rightarrow> error + ((addr \<times> byte list) option \<times> heap)" where
  "vprintf_loop h bufp buflen out =
     (if buflen < 2 then Inl Out_of_bounds
      else if buflen - 1 \<le> length out \<and> out ! (buflen - 2) \<noteq> 0
      then (case (if bufp \<noteq> 0 then ni_string_ptr_free h bufp else Inr h) of
              Inl e \<Rightarrow> Inl e
            | Inr h1 \<Rightarrow>
                (case ni_string_malloc h1 ((buflen * 2) mod 2 ^ 64) of
                   Inl e \<Rightarrow> Inl e
                 | Inr (p, h2) \<Rightarrow>
                     if p = 0 then Inr (None, h2)
                     else if (buflen * 2) mod 2 ^ 64 \<le> buflen then Inl Out_of_bounds
                     else vprintf_loop h2 p ((buflen * 2) mod 2 ^ 64) out))
      else Inr (Some (bufp, take (buflen - 1) out), h))"
  by pat_completeness auto
termination
  by (relation "measure (\<lambda>(h, bufp, buflen, out). length out + 2 - buflen)") auto

definition ni_string_cat_vprintf ::
  "heap \<Rightarrow> ni_string \<Rightarrow> byte list \<Rightarrow> byte list \<Rightarrow> error + (ni_string option \<times> heap)" where
  "ni_string_cat_vprintf h s fmt out =
     (let buflen = (length (cstr fmt) * 2) mod 2 ^ 64
      in case (if buflen > 1024
               then (case ni_string_malloc h buflen of
                       Inl e \<Rightarrow> Inl e
                     | Inr (p, h1) \<Rightarrow>
                         if p = 0 then Inr (None, h1) else vprintf_loop h1 p buflen out)
               else vprintf_loop h 0 1024 out) of
           Inl e \<Rightarrow> Inl e
         | Inr (None, h2) \<Rightarrow> Inr (None, h2)
         | Inr (Some (bufp, bytes), h2) \<Rightarrow>
             (case ni_string_cat h2 s bytes of
                Inl e \<Rightarrow> Inl e
              | Inr (t, h3) \<Rightarrow>
                  (case (if bufp \<noteq> 0 then ni_string_ptr_free h3 bufp else Inr h3) of
                     Inl e \<Rightarrow> Inl e
                   | Inr h4 \<Rightarrow> Inr (t, h4))))"

definition ni_string_cat_printf ::
  "heap \<Rightarrow> ni_string \<Rightarrow> byte list \<Rightarrow> byte list \<Rightarrow> error + (ni_string option \<times> heap)" where
  "ni_string_cat_printf h s fmt out = ni_string_cat_vprintf h s fmt out"

text \<open>
  The variadic arguments of \<open>ni_string_cat_fmt\<close>. \<open>%s\<close> and \<open>%S\<close> both fetch
  a \<open>char *\<close>; \<open>%S\<close> reads the header in front of it, which a plain C string
  does not have.
\<close>

datatype fmt_arg =
    Arg_str "byte list"
  | Arg_ni_string ni_string
  | Arg_int "32 word"
  | Arg_longlong "64 word"
  | Arg_uint "32 word"
  | Arg_ulonglong "64 word"

text \<open>The position \<open>i\<close> of the next byte to write is a \<open>long\<close>; a store
  through a negative offset lies outside the block.\<close>

definition store_at :: "ni_string \<Rightarrow> int \<Rightarrow> byte list \<Rightarrow> error + ni_string" where
  "store_at s i bs = (if i < 0 then Inl Out_of_bounds else write_bytes s (nat i) bs)"

text \<open>
  A string argument that is a \<open>ni_string\<close> lies in a heap block, which may be
  the block of the destination: what is read through the pointer is then the
  destination as it is now. A pointer into a block that is not live reads
  freed memory. The result is the bytes to copy (up to the terminator for
  \<open>%s\<close>, as many as the header says for \<open>%S\<close>) and the block they are in.
\<close>

definition fmt_read ::
  "heap \<Rightarrow> ni_string \<Rightarrow> ni_string \<Rightarrow> bool \<Rightarrow> error + (byte list \<times> addr option)" where
  "fmt_read h s t as_cstr =
     (if base t \<notin> set (live h) then Inl Out_of_bounds
      else
        let t' = (if base t = base s then s else t)
        in if as_cstr
           then (if 0 \<in> set (buf t') then Inr (cstr (buf t'), Some (base t'))
                 else Inl Out_of_bounds)
           else if length (buf t') < ni_string_len t' then Inl Out_of_bounds
           else Inr (take (ni_string_len t') (buf t'), Some (base t')))"

text \<open>The shared tail of the verb cases: grow if needed, \<open>memcpy\<close> at offset
  \<open>i\<close>, \<open>ni_string_incr_len\<close>, advance \<open>i\<close>. A \<open>NULL\<close> from the growth call is
  not checked and is dereferenced next. The bytes are copied after the
  growth, from the block \<open>blk\<close> they were found in (\<open>None\<close> for memory outside
  the heap): if the growth released that block, the copy reads freed memory.\<close>

definition fmt_put ::
  "heap \<Rightarrow> ni_string \<Rightarrow> int \<Rightarrow> byte list \<Rightarrow> addr option \<Rightarrow>
   error + (ni_string \<times> int \<times> heap)" where
  "fmt_put h s i str blk =
     (let l = length str
      in case (if ni_string_avail s < l then ni_string_make_room_for h s l
               else Inr (Some s, h)) of
           Inl e \<Rightarrow> Inl e
         | Inr (None, h1) \<Rightarrow> Inl Null_deref
         | Inr (Some s1, h1) \<Rightarrow>
             if (case blk of None \<Rightarrow> False | Some b \<Rightarrow> b \<notin> set (live h1))
             then Inl Out_of_bounds
             else
               (case store_at s1 i str of
                  Inl e \<Rightarrow> Inl e
                | Inr s2 \<Rightarrow>
                    (case ni_string_incr_len h1 s2 (to_ssize_t (int l)) of
                       Inl e \<Rightarrow> Inl e
                     | Inr (s3, h3) \<Rightarrow> Inr (s3, to_ssize_t (i + int l), h3))))"

definition fmt_putc ::
  "heap \<Rightarrow> ni_string \<Rightarrow> int \<Rightarrow> byte \<Rightarrow> error + (ni_string \<times> int \<times> heap)" where
  "fmt_putc h s i c =
     (case store_at s i [c] of
        Inl e \<Rightarrow> Inl e
      | Inr s1 \<Rightarrow>
          (case ni_string_incr_len h s1 1 of
             Inl e \<Rightarrow> Inl e
           | Inr (s2, h2) \<Rightarrow> Inr (s2, to_ssize_t (i + 1), h2)))"

text \<open>
  The loop of \<open>ni_string_cat_fmt\<close>. The format is the array of bytes behind
  the pointer \<open>fmt\<close>, its terminator and what follows it included: the loop
  stops at a zero byte it finds at its head, and after a \<open>%\<close> the next byte
  is consumed whatever it is, so that a format ending in \<open>%\<close> makes the loop
  step over the terminator and go on with the bytes behind it. Reading past
  the end of the array is out of bounds.
\<close>

fun cat_fmt_loop ::
  "heap \<Rightarrow> ni_string \<Rightarrow> int \<Rightarrow> byte list \<Rightarrow> fmt_arg list \<Rightarrow> error + (ni_string \<times> heap)" where
  "cat_fmt_loop h s i [] ap = Inl Out_of_bounds"
| "cat_fmt_loop h s i (c # f) ap =
     (if c = 0
      then (case store_at s i [0] of Inl e \<Rightarrow> Inl e | Inr s1 \<Rightarrow> Inr (s1, h))
      else
     (case (if ni_string_avail s = 0 then ni_string_make_room_for h s 1 else Inr (Some s, h)) of
        Inl e \<Rightarrow> Inl e
      | Inr (None, h1) \<Rightarrow> Inl Null_deref
      | Inr (Some s1, h1) \<Rightarrow>
          if c = 0x25 then
            (case f of
               [] \<Rightarrow> Inl Out_of_bounds
             | next # f' \<Rightarrow>
                 if next = 0x73 \<or> next = 0x53 then
                   (case ap of
                      [] \<Rightarrow> Inl Bad_vararg
                    | a # ap' \<Rightarrow>
                        (case (case a of
                                 Arg_str bs \<Rightarrow>
                                   if next = 0x73 then Inr (cstr bs, None) else Inl Bad_vararg
                               | Arg_ni_string t \<Rightarrow> fmt_read h1 s1 t (next = 0x73)
                               | _ \<Rightarrow> Inl Bad_vararg) of
                           Inl e \<Rightarrow> Inl e
                         | Inr (str, blk) \<Rightarrow>
                             (case fmt_put h1 s1 i str blk of
                                Inl e \<Rightarrow> Inl e
                              | Inr (s2, i2, h2) \<Rightarrow> cat_fmt_loop h2 s2 i2 f' ap')))
                 else if next = 0x69 \<or> next = 0x49 then
                   (case ap of
                      [] \<Rightarrow> Inl Bad_vararg
                    | a # ap' \<Rightarrow>
                        (case (case a of
                                 Arg_int w \<Rightarrow> if next = 0x69 then Inr (sint w) else Inl Bad_vararg
                               | Arg_longlong w \<Rightarrow>
                                   if next = 0x49 then Inr (sint w) else Inl Bad_vararg
                               | _ \<Rightarrow> Inl Bad_vararg) of
                           Inl e \<Rightarrow> Inl e
                         | Inr num \<Rightarrow>
                             (case fmt_put h1 s1 i (ni_string_ll2str num) None of
                                Inl e \<Rightarrow> Inl e
                              | Inr (s2, i2, h2) \<Rightarrow> cat_fmt_loop h2 s2 i2 f' ap')))
                 else if next = 0x75 \<or> next = 0x55 then
                   (case ap of
                      [] \<Rightarrow> Inl Bad_vararg
                    | a # ap' \<Rightarrow>
                        (case (case a of
                                 Arg_uint w \<Rightarrow> if next = 0x75 then Inr (unat w) else Inl Bad_vararg
                               | Arg_ulonglong w \<Rightarrow>
                                   if next = 0x55 then Inr (unat w) else Inl Bad_vararg
                               | _ \<Rightarrow> Inl Bad_vararg) of
                           Inl e \<Rightarrow> Inl e
                         | Inr unum \<Rightarrow>
                             (case fmt_put h1 s1 i (ni_string_ull2str unum) None of
                                Inl e \<Rightarrow> Inl e
                              | Inr (s2, i2, h2) \<Rightarrow> cat_fmt_loop h2 s2 i2 f' ap')))
                 else
                   (case fmt_putc h1 s1 i next of
                      Inl e \<Rightarrow> Inl e
                    | Inr (s2, i2, h2) \<Rightarrow> cat_fmt_loop h2 s2 i2 f' ap))
          else
            (case fmt_putc h1 s1 i c of
               Inl e \<Rightarrow> Inl e
             | Inr (s2, i2, h2) \<Rightarrow> cat_fmt_loop h2 s2 i2 f ap)))"

definition ni_string_cat_fmt ::
  "heap \<Rightarrow> ni_string \<Rightarrow> byte list \<Rightarrow> fmt_arg list \<Rightarrow> error + (ni_string \<times> heap)" where
  "ni_string_cat_fmt h s fmt ap =
     cat_fmt_loop h s (to_ssize_t (int (ni_string_len s))) fmt ap"

section \<open>Escaped representation and tokenizers\<close>

text \<open>The character classes of the C locale (the program never changes it).\<close>

definition isprint :: "byte \<Rightarrow> bool" where
  "isprint c \<longleftrightarrow> 0x20 \<le> c \<and> c \<le> 0x7E"

definition isspace :: "byte \<Rightarrow> bool" where
  "isspace c \<longleftrightarrow> c = 0x20 \<or> (0x09 \<le> c \<and> c \<le> 0x0D)"

text \<open>The digit \<open>printf\<close> writes for \<open>%x\<close>.\<close>

definition hex_lower :: "nat \<Rightarrow> byte" where
  "hex_lower d = (if d < 10 then of_nat (48 + d) else of_nat (87 + d))"

text \<open>
  \<open>ni_string_cat_repr\<close>. The three \<open>printf\<close> formats it uses are
  \<open>"\\%c"\<close>, \<open>"%c"\<close> and \<open>"\\x%02x"\<close>; the formatter's output for each is
  written out. Results of the appending calls are not checked: a \<open>NULL\<close> is
  passed on to the next call, which dereferences it.
\<close>

fun cat_repr_loop ::
  "heap \<Rightarrow> ni_string option \<Rightarrow> byte list \<Rightarrow> error + (ni_string option \<times> heap)" where
  "cat_repr_loop h so [] = Inr (so, h)"
| "cat_repr_loop h so (c # p) =
     (case so of
        None \<Rightarrow> Inl Null_deref
      | Some s \<Rightarrow>
          (case (if c = 0x5C \<or> c = 0x22
                 then ni_string_cat_printf h s [0x5C, 0x25, 0x63] [0x5C, c]
                 else if c = 0x0A then ni_string_cat_len h s [0x5C, 0x6E]
                 else if c = 0x0D then ni_string_cat_len h s [0x5C, 0x72]
                 else if c = 0x09 then ni_string_cat_len h s [0x5C, 0x74]
                 else if c = 0x07 then ni_string_cat_len h s [0x5C, 0x61]
                 else if c = 0x08 then ni_string_cat_len h s [0x5C, 0x62]
                 else if isprint c
                 then ni_string_cat_printf h s [0x25, 0x63] [c]
                 else ni_string_cat_printf h s [0x5C, 0x78, 0x25, 0x30, 0x32, 0x78]
                        [0x5C, 0x78, hex_lower (unat c div 16), hex_lower (unat c mod 16)]) of
             Inl e \<Rightarrow> Inl e
           | Inr (so', h') \<Rightarrow> cat_repr_loop h' so' p))"

definition ni_string_cat_repr ::
  "heap \<Rightarrow> ni_string \<Rightarrow> byte list \<Rightarrow> error + (ni_string option \<times> heap)" where
  "ni_string_cat_repr h s p =
     (case ni_string_cat_len h s [0x22] of
        Inl e \<Rightarrow> Inl e
      | Inr (so, h1) \<Rightarrow>
          (case cat_repr_loop h1 so p of
             Inl e \<Rightarrow> Inl e
           | Inr (None, h2) \<Rightarrow> Inl Null_deref
           | Inr (Some s2, h2) \<Rightarrow> ni_string_cat_len h2 s2 [0x22]))"

definition is_hex_digit :: "byte \<Rightarrow> bool" where
  "is_hex_digit c \<longleftrightarrow>
     (0x30 \<le> c \<and> c \<le> 0x39) \<or> (0x61 \<le> c \<and> c \<le> 0x66) \<or> (0x41 \<le> c \<and> c \<le> 0x46)"

definition hex_digit_to_int :: "byte \<Rightarrow> nat" where
  "hex_digit_to_int c =
     (if c = 0x30 then 0 else if c = 0x31 then 1 else if c = 0x32 then 2
      else if c = 0x33 then 3 else if c = 0x34 then 4 else if c = 0x35 then 5
      else if c = 0x36 then 6 else if c = 0x37 then 7 else if c = 0x38 then 8
      else if c = 0x39 then 9
      else if c = 0x61 \<or> c = 0x41 then 10
      else if c = 0x62 \<or> c = 0x42 then 11
      else if c = 0x63 \<or> c = 0x43 then 12
      else if c = 0x64 \<or> c = 0x44 then 13
      else if c = 0x65 \<or> c = 0x45 then 14
      else if c = 0x66 \<or> c = 0x46 then 15
      else 0)"

text \<open>
  The input line of \<open>ni_string_split_args\<close> is a C string; \<open>p\<close> is the rest
  of it, and \<open>peek p k\<close> is \<open>*(p + k)\<close>, the terminator once the rest is
  used up (the conditions are short-circuit, so nothing behind the terminator
  is read).
\<close>

definition peek :: "byte list \<Rightarrow> nat \<Rightarrow> byte" where
  "peek p k = (if k < length p then p ! k else 0)"

definition unescape :: "byte \<Rightarrow> byte" where
  "unescape c =
     (if c = 0x6E then 0x0A else if c = 0x72 then 0x0D else if c = 0x74 then 0x09
      else if c = 0x62 then 0x08 else if c = 0x61 then 0x07 else c)"

text \<open>\<open>current = ni_string_cat_len(current, ...)\<close> with \<open>current\<close> possibly
  \<open>NULL\<close> from an earlier failure.\<close>

definition sa_cat ::
  "heap \<Rightarrow> ni_string option \<Rightarrow> byte list \<Rightarrow> error + (ni_string option \<times> heap)" where
  "sa_cat h current bs =
     (case current of None \<Rightarrow> Inl Null_deref | Some s \<Rightarrow> ni_string_cat_len h s bs)"

text \<open>The inner \<open>while (!done)\<close> loop. The result says whether the token was
  completed (\<open>True\<close>) or the code jumped to \<open>err\<close> (\<open>False\<close>), and gives
  \<open>current\<close>, the rest of the line and the heap.\<close>

function sa_token ::
  "heap \<Rightarrow> ni_string option \<Rightarrow> bool \<Rightarrow> bool \<Rightarrow> byte list \<Rightarrow>
   error + (bool \<times> ni_string option \<times> byte list \<times> heap)" where
  "sa_token h current inq insq p =
     (let c = peek p 0 in
      if inq then
        if c = 0x5C \<and> peek p 1 = 0x78 \<and> is_hex_digit (peek p 2) \<and> is_hex_digit (peek p 3)
        then (case sa_cat h current
                     [of_nat (hex_digit_to_int (peek p 2) * 16 + hex_digit_to_int (peek p 3))] of
                Inl e \<Rightarrow> Inl e
              | Inr (cur', h') \<Rightarrow> sa_token h' cur' inq insq (drop 4 p))
        else if c = 0x5C \<and> peek p 1 \<noteq> 0
        then (case sa_cat h current [unescape (peek p 1)] of
                Inl e \<Rightarrow> Inl e
              | Inr (cur', h') \<Rightarrow> sa_token h' cur' inq insq (drop 2 p))
        else if c = 0x22
        then (if peek p 1 \<noteq> 0 \<and> \<not> isspace (peek p 1) then Inr (False, current, p, h)
              else Inr (True, current, drop 1 p, h))
        else if c = 0 then Inr (False, current, p, h)
        else (case sa_cat h current [c] of
                Inl e \<Rightarrow> Inl e
              | Inr (cur', h') \<Rightarrow> sa_token h' cur' inq insq (drop 1 p))
      else if insq then
        if c = 0x5C \<and> peek p 1 = 0x27
        then (case sa_cat h current [0x27] of
                Inl e \<Rightarrow> Inl e
              | Inr (cur', h') \<Rightarrow> sa_token h' cur' inq insq (drop 2 p))
        else if c = 0x27
        then (if peek p 1 \<noteq> 0 \<and> \<not> isspace (peek p 1) then Inr (False, current, p, h)
              else Inr (True, current, drop 1 p, h))
        else if c = 0 then Inr (False, current, p, h)
        else (case sa_cat h current [c] of
                Inl e \<Rightarrow> Inl e
              | Inr (cur', h') \<Rightarrow> sa_token h' cur' inq insq (drop 1 p))
      else
        if c = 0x20 \<or> c = 0x0A \<or> c = 0x0D \<or> c = 0x09 \<or> c = 0
        then Inr (True, current, (if c \<noteq> 0 then drop 1 p else p), h)
        else if c = 0x22 then sa_token h current True insq (drop 1 p)
        else if c = 0x27 then sa_token h current inq True (drop 1 p)
        else (case sa_cat h current [c] of
                Inl e \<Rightarrow> Inl e
              | Inr (cur', h') \<Rightarrow> sa_token h' cur' inq insq (drop 1 p)))"
  by pat_completeness auto
termination
  by (relation "measure (\<lambda>(h, current, inq, insq, p). length p)")
     (auto simp: peek_def split: if_splits)

text \<open>The \<open>err\<close> label: every token and \<open>current\<close> are passed to
  \<open>ni_string_ptr_free\<close> as they are, that is, by their handles.\<close>

fun free_tokens :: "heap \<Rightarrow> ni_string option list \<Rightarrow> error + heap" where
  "free_tokens h [] = Inr h"
| "free_tokens h (t # ts) =
     (case ni_string_ptr_free h (case t of None \<Rightarrow> 0 | Some s \<Rightarrow> handle s) of
        Inl e \<Rightarrow> Inl e
      | Inr h' \<Rightarrow> free_tokens h' ts)"

type_synonym vector = "addr \<times> ni_string option list"

definition sa_err ::
  "heap \<Rightarrow> addr \<Rightarrow> ni_string option list \<Rightarrow> ni_string option \<Rightarrow>
   error + (vector option \<times> nat \<times> heap)" where
  "sa_err h vptr vec current =
     (case free_tokens h (rev vec) of
        Inl e \<Rightarrow> Inl e
      | Inr h1 \<Rightarrow>
          (case ni_string_ptr_free h1 vptr of
             Inl e \<Rightarrow> Inl e
           | Inr h2 \<Rightarrow>
               (case (case current of
                        None \<Rightarrow> Inr h2
                      | Some s \<Rightarrow> ni_string_ptr_free h2 (handle s)) of
                  Inl e \<Rightarrow> Inl e
                | Inr h3 \<Rightarrow> Inr (None, 0, h3))))"

function sa_main ::
  "heap \<Rightarrow> byte list \<Rightarrow> addr \<Rightarrow> ni_string option list \<Rightarrow>
   error + (vector option \<times> nat \<times> heap)" where
  "sa_main h p vptr vec =
     (let p1 = dropWhile (\<lambda>c. c \<noteq> 0 \<and> isspace c) p in
      if peek p1 0 \<noteq> 0 then
        (case ni_string_empty h of
           Inl e \<Rightarrow> Inl e
         | Inr (cur, h1) \<Rightarrow>
             (case sa_token h1 cur False False p1 of
                Inl e \<Rightarrow> Inl e
              | Inr (ok, cur', p2, h2) \<Rightarrow>
                  if \<not> ok then sa_err h2 vptr vec cur'
                  else (case ni_string_realloc h2 vptr (((length vec + 1) * 8) mod 2 ^ 64) of
                          Inl e \<Rightarrow> Inl e
                        | Inr (v', h3) \<Rightarrow>
                            if v' = 0 then Inl Null_deref
                            else sa_main h3 p2 v' (vec @ [cur']))))
      else if vptr = 0
      then (case ni_string_malloc h 8 of
              Inl e \<Rightarrow> Inl e
            | Inr (v, h1) \<Rightarrow> Inr (if v = 0 then None else Some (v, vec), length vec, h1))
      else Inr (Some (vptr, vec), length vec, h))"
  by pat_completeness auto

lemma sa_token_rest:
  "sa_token h current inq insq p = Inr (ok, cur', p2, h2) \<Longrightarrow>
   length p2 \<le> length p \<and> (ok \<and> peek p 0 \<noteq> 0 \<longrightarrow> length p2 < length p)"
proof (induction h current inq insq p arbitrary: ok cur' p2 h2 rule: sa_token.induct)
  case (1 h current inq insq p)
  have ne: "peek p 0 \<noteq> 0 \<Longrightarrow> 0 < length p" by (auto simp: peek_def)
  show ?case
    using "1.prems" "1.IH" ne
    apply (subst (asm) sa_token.simps)
    apply (simp only: Let_def split: if_splits sum.splits prod.splits)
    apply (fastforce)+
    done
qed

termination sa_main
proof (relation "measure (\<lambda>(h, p, vptr, vec). length p)", goal_cases)
  case 1
  show ?case by simp
next
  case (2 h p vptr vec p1 x2 cur h1 x2a ok y cur' ya p2 h2 x2b v' h3)
  have "length p1 \<le> length p"
    using 2 by (simp add: length_dropWhile_le)
  moreover have "length p2 < length p1"
    using sa_token_rest[of h1 cur False False p1 ok cur' p2 h2] 2 by simp
  ultimately show ?case by simp
qed

definition ni_string_split_args ::
  "heap \<Rightarrow> byte list \<Rightarrow> error + (vector option \<times> nat \<times> heap)" where
  "ni_string_split_args h line = sa_main h (cstr line) 0 []"

text \<open>
  \<open>ni_string_split_len\<close>. The token array is a heap block of \<open>slots\<close>
  pointers at \<open>tp\<close>; \<open>elements\<close> is the number of tokens stored so far.
  \<open>seplen \<ge> 1\<close> is checked on entry; the loop repeats the test, which makes
  its termination evident. The \<open>cleanup\<close> label passes the token handles to
  \<open>ni_string_ptr_free\<close> as they are.
\<close>

type_synonym tokens = "addr \<times> ni_string list"

definition split_cleanup ::
  "heap \<Rightarrow> addr \<Rightarrow> ni_string list \<Rightarrow> error + (tokens option \<times> int \<times> heap)" where
  "split_cleanup h tp toks =
     (case free_tokens h (map Some toks) of
        Inl e \<Rightarrow> Inl e
      | Inr h1 \<Rightarrow>
          (case ni_string_ptr_free h1 tp of
             Inl e \<Rightarrow> Inl e
           | Inr h2 \<Rightarrow> Inr (None, 0, h2)))"

function split_loop ::
  "heap \<Rightarrow> byte list \<Rightarrow> int \<Rightarrow> byte list \<Rightarrow> int \<Rightarrow> addr \<Rightarrow> ni_string list \<Rightarrow> int \<Rightarrow>
   int \<Rightarrow> int \<Rightarrow> error + (tokens option \<times> int \<times> heap)" where
  "split_loop h s len sep seplen tp toks slots start j =
     (let elements = int (length toks) in
      if seplen \<ge> 1 \<and> j < len - (seplen - 1) then
        (if slots < elements + 2 \<and> (slots * 2 \<ge> 2 ^ 31 \<or> slots * 2 < - (2 ^ 31))
         then Inl Int_overflow
         else
           case (if slots < elements + 2
                 then ni_string_realloc h tp (to_size_t (8 * (slots * 2)))
                 else Inr (tp, h)) of
             Inl e \<Rightarrow> Inl e
           | Inr (tp1, h1) \<Rightarrow>
               if tp1 = 0 then split_cleanup h1 tp toks
               else
                 let slots1 = (if slots < elements + 2 then slots * 2 else slots) in
                 if take (nat seplen) (drop (nat j) s) = take (nat seplen) sep
                 then (case ni_string_new_len h1 (Init_bytes (drop (nat start) s))
                              (to_size_t (j - start)) of
                         Inl e \<Rightarrow> Inl e
                       | Inr (None, h2) \<Rightarrow>
                           if elements < slots1 then split_cleanup h2 tp1 toks
                           else Inl Out_of_bounds
                       | Inr (Some tok, h2) \<Rightarrow>
                           if elements < slots1
                           then split_loop h2 s len sep seplen tp1 (toks @ [tok]) slots1
                                  (j + seplen) (j + seplen - 1 + 1)
                           else Inl Out_of_bounds)
                 else split_loop h1 s len sep seplen tp1 toks slots1 start (j + 1))
      else
        (case ni_string_new_len h (Init_bytes (drop (nat start) s)) (to_size_t (len - start)) of
           Inl e \<Rightarrow> Inl e
         | Inr (None, h2) \<Rightarrow>
             if elements < slots then split_cleanup h2 tp toks else Inl Out_of_bounds
         | Inr (Some tok, h2) \<Rightarrow>
             if elements < slots then Inr (Some (tp, toks @ [tok]), elements + 1, h2)
             else Inl Out_of_bounds))"
  by pat_completeness auto
termination
  by (relation "measure (\<lambda>(h, s, len, sep, seplen, tp, toks, slots, start, j). nat (len - j))")
     auto

definition ni_string_split_len ::
  "heap \<Rightarrow> byte list \<Rightarrow> int \<Rightarrow> byte list \<Rightarrow> int \<Rightarrow> int \<Rightarrow>
   error + (tokens option \<times> int \<times> heap)" where
  "ni_string_split_len h s len sep seplen count0 =
     (if seplen < 1 \<or> len < 0 then Inr (None, count0, h)
      else
        case ni_string_malloc h (8 * 5) of
          Inl e \<Rightarrow> Inl e
        | Inr (tp, h1) \<Rightarrow>
            if tp = 0 then Inr (None, count0, h1)
            else if len = 0 then Inr (Some (tp, []), 0, h1)
            else if int (length s) < len \<or> int (length sep) < seplen then Inl Out_of_bounds
            else split_loop h1 s len sep seplen tp [] 5 0 0)"

section \<open>Auxiliary notions for the statements\<close>

text \<open>The growth policy of \<open>ni_string_make_room_for\<close> in unbounded arithmetic,
  and the header type chosen for a grown buffer.\<close>

definition grown :: "nat \<Rightarrow> nat" where
  "grown n = (if n < NI_STRING_MAX_PREALLOC then 2 * n else n + NI_STRING_MAX_PREALLOC)"

definition grow_type :: "nat \<Rightarrow> hdr_type" where
  "grow_type n =
     (if ni_string_req_type n = NI_STRING_TYPE_5 then NI_STRING_TYPE_8 else ni_string_req_type n)"

text \<open>A request of \<open>addlen\<close> more bytes on a string of length \<open>len\<close> whose
  grown size, with the largest header and the terminator, is below \<open>2 ^ 64\<close>.\<close>

definition fits :: "nat \<Rightarrow> nat \<Rightarrow> bool" where
  "fits len addlen \<longleftrightarrow> len + addlen + NI_STRING_MAX_PREALLOC + 18 < 2 ^ 64"

text \<open>An allocator that grants every request, with its bookkeeping intact:
  every live block starts below \<open>brk\<close> and none at \<open>NULL\<close>.\<close>

definition heap_ok :: "heap \<Rightarrow> bool" where
  "heap_ok h \<longleftrightarrow> (\<forall>n. grant h n) \<and> 0 < brk h \<and> (\<forall>a \<in> set (live h). 0 < a \<and> a < brk h)"

text \<open>\<open>moved h p h' p'\<close>: the block at \<open>p\<close> of heap \<open>h\<close> is the block at \<open>p'\<close>
  of heap \<open>h'\<close> (in place or relocated to a fresh address), and every other
  live block of \<open>h\<close> is still live.\<close>

definition moved :: "heap \<Rightarrow> addr \<Rightarrow> heap \<Rightarrow> addr \<Rightarrow> bool" where
  "moved h p h' p' \<longleftrightarrow>
     heap_ok h' \<and> p' \<in> set (live h') \<and> (p' = p \<or> p' \<notin> set (live h)) \<and>
     (\<forall>a \<in> set (live h). a \<noteq> p \<longrightarrow> a \<in> set (live h'))"

definition heap0 :: heap where
  "heap0 = \<lparr>live = [], brk = 16, grant = (\<lambda>n. True), moves = (\<lambda>n. False),
            oom_abort = True, junk = (\<lambda>a. 0xAA)\<rparr>"

text \<open>Sample states: the heap after \<open>ni_string_new("abc")\<close> on \<open>heap0\<close> and the
  string it returns (a type 5 string), and the same content under an 8-bit
  header with no spare capacity.\<close>

definition heap1 :: heap where
  "heap1 = heap0\<lparr>live := [16], brk := 24\<rparr>"

definition s_abc5 :: ni_string where
  "s_abc5 = \<lparr>base = 16, htype = NI_STRING_TYPE_5, hlen = 3, halloc = 3,
             buf = [0x61, 0x62, 0x63, 0]\<rparr>"

definition s_abc8 :: ni_string where
  "s_abc8 = \<lparr>base = 16, htype = NI_STRING_TYPE_8, hlen = 3, halloc = 3,
             buf = [0x61, 0x62, 0x63, 0]\<rparr>"

text \<open>Whether \<open>ni_string_remove_free_space\<close> keeps the header it finds: the
  type required for the length is the old one, or is above type 8.\<close>

definition keeps_header :: "ni_string \<Rightarrow> bool" where
  "keeps_header s \<longleftrightarrow>
     htype s = ni_string_req_type (ni_string_len s) \<or>
     type_code (ni_string_req_type (ni_string_len s)) > type_code NI_STRING_TYPE_8"

text \<open>The string \<open>"abc"\<close> with capacity 10 under an 8-bit header, and 300
  bytes \<open>'a'\<close> with capacity 70000 under a 32-bit header.\<close>

definition s_abc_spare :: ni_string where
  "s_abc_spare = \<lparr>base = 16, htype = NI_STRING_TYPE_8, hlen = 3, halloc = 10,
                  buf = [0x61, 0x62, 0x63, 0] @ replicate 7 0xAA\<rparr>"

definition s_wide :: ni_string where
  "s_wide = \<lparr>base = 16, htype = NI_STRING_TYPE_32, hlen = 300, halloc = 70000,
             buf = replicate 300 0x61 @ replicate 69701 0\<rparr>"

text \<open>
  The sub-range operation in two readings. \<open>spec_sub_range\<close> follows the
  words of the specification: negative indices count from the end, \<open>start\<close>
  is clamped to \<open>[0, len)\<close>, \<open>end\<close> is clamped to \<open>[-1, len)\<close>, an empty
  interval gives the empty string. \<open>range_result\<close> is what the code computes:
  a negative index that still lies before the first byte becomes 0 (for
  \<open>end\<close> as well), a \<open>start\<close> at or behind the length gives the empty string,
  and \<open>end\<close> is cut to the last byte.
\<close>

definition spec_sub_range :: "byte list \<Rightarrow> int \<Rightarrow> int \<Rightarrow> byte list" where
  "spec_sub_range bs start e =
     (let len = int (length bs);
          st0 = (if start < 0 then len + start else start);
          en0 = (if e < 0 then len + e else e);
          st = max 0 (min (len - 1) st0);
          en = max (- 1) (min (len - 1) en0)
      in if st > en then [] else take (nat (en - st + 1)) (drop (nat st) bs))"

definition range_result :: "byte list \<Rightarrow> int \<Rightarrow> int \<Rightarrow> byte list" where
  "range_result bs start e =
     (let len = int (length bs);
          st = (if start < 0 then max 0 (len + start) else start);
          en = (if e < 0 then max 0 (len + e) else e)
      in if len = 0 \<or> st > en \<or> st \<ge> len then []
         else take (nat (min en (len - 1) - st + 1)) (drop (nat st) bs))"

text \<open>The string \<open>"ciao"\<close> as \<open>ni_string_new\<close> makes it.\<close>

definition s_ciao :: ni_string where
  "s_ciao = \<lparr>base = 16, htype = NI_STRING_TYPE_5, hlen = 4, halloc = 4,
             buf = [0x63, 0x69, 0x61, 0x6F, 0]\<rparr>"

text \<open>The string an operation returns, if it returns one.\<close>

definition result_string :: "error + (ni_string option \<times> heap) \<Rightarrow> ni_string option" where
  "result_string r = (case r of Inr (Some s, h) \<Rightarrow> Some s | _ \<Rightarrow> None)"

definition result_content :: "error + (ni_string option \<times> heap) \<Rightarrow> byte list option" where
  "result_content r = map_option content (result_string r)"

text \<open>The states of the tokenizer on the line \<open>"foo\<close> (an opening quote
  that is never closed), started on \<open>heap0\<close>: the heap after the token was
  created, and the token while it grows.\<close>

definition heap_tok :: heap where
  "heap_tok = heap0\<lparr>live := [16], brk := 21\<rparr>"

definition tok_empty :: ni_string where
  "tok_empty = \<lparr>base = 16, htype = NI_STRING_TYPE_8, hlen = 0, halloc = 0, buf = [0]\<rparr>"

definition tok_f :: ni_string where
  "tok_f = \<lparr>base = 16, htype = NI_STRING_TYPE_8, hlen = 1, halloc = 2, buf = [0x66, 0, 0xAA]\<rparr>"

definition tok_fo :: ni_string where
  "tok_fo = \<lparr>base = 16, htype = NI_STRING_TYPE_8, hlen = 2, halloc = 2, buf = [0x66, 0x6F, 0]\<rparr>"

definition tok_foo :: ni_string where
  "tok_foo = \<lparr>base = 16, htype = NI_STRING_TYPE_8, hlen = 3, halloc = 6,
              buf = [0x66, 0x6F, 0x6F, 0, 0xAA, 0xAA, 0xAA]\<rparr>"

text \<open>What is left of validity while bytes are being stored behind the
  logical end: the header is consistent with the block, the terminator is
  not in place.\<close>

definition header_ok :: "ni_string \<Rightarrow> bool" where
  "header_ok s \<longleftrightarrow>
     ni_string_len s \<le> ni_string_alloc s \<and>
     ni_string_alloc s < 2 ^ field_bits (htype s) \<and>
     ni_string_alloc s < length (buf s) \<and>
     ni_string_hdr_size (htype s) + length (buf s) < 2 ^ 64 \<and>
     (htype s = NI_STRING_TYPE_5 \<longrightarrow> length (buf s) \<le> 32)"

text \<open>The result of an operation that returns the handle it was given, in
  the form of the results of the operations that may return \<open>NULL\<close>.\<close>

definition returned :: "error + (ni_string \<times> heap) \<Rightarrow> error + (ni_string option \<times> heap)" where
  "returned r = (case r of Inl e \<Rightarrow> Inl e | Inr (s, h) \<Rightarrow> Inr (Some s, h))"

text \<open>The decimal rendering of a number, most significant digit first, and
  of a signed number, with a minus sign in front of a negative one.\<close>

function decimal :: "nat \<Rightarrow> byte list" where
  "decimal n =
     (if n < 10 then [of_nat (48 + n)] else decimal (n div 10) @ [of_nat (48 + n mod 10)])"
  by pat_completeness auto
termination
  by (relation "measure (\<lambda>n. n)") auto

definition decimal_int :: "int \<Rightarrow> byte list" where
  "decimal_int x = (if x < 0 then 0x2D # decimal (nat (- x)) else decimal (nat x))"

text \<open>
  What the format verbs stand for, in the words of the specification:
  \<open>%s\<close> a C string, \<open>%S\<close> a string of the library, \<open>%i\<close> and \<open>%I\<close> a signed
  integer of 32 and 64 bits, \<open>%u\<close> and \<open>%U\<close> an unsigned one, each integer in
  its decimal rendering; any other byte behind a \<open>%\<close> stands for itself
  (so \<open>%%\<close> is a \<open>%\<close>), and so does every byte that is not a \<open>%\<close>.
  \<open>fmt_args_ok\<close> says that the arguments are those the verbs of the format
  ask for and that the format does not end in a lone \<open>%\<close>.
\<close>

fun fmt_render :: "byte list \<Rightarrow> fmt_arg list \<Rightarrow> byte list" where
  "fmt_render [] ap = []"
| "fmt_render [c] ap = (if c = 0x25 then [] else [c])"
| "fmt_render (c # n # f) ap =
     (if c \<noteq> 0x25 then c # fmt_render (n # f) ap
      else if n = 0x73 then
        (case ap of
           Arg_str bs # ap' \<Rightarrow> cstr bs @ fmt_render f ap'
         | Arg_ni_string t # ap' \<Rightarrow> cstr (buf t) @ fmt_render f ap'
         | _ \<Rightarrow> [])
      else if n = 0x53 then
        (case ap of Arg_ni_string t # ap' \<Rightarrow> content t @ fmt_render f ap' | _ \<Rightarrow> [])
      else if n = 0x69 then
        (case ap of Arg_int w # ap' \<Rightarrow> decimal_int (sint w) @ fmt_render f ap' | _ \<Rightarrow> [])
      else if n = 0x49 then
        (case ap of Arg_longlong w # ap' \<Rightarrow> decimal_int (sint w) @ fmt_render f ap' | _ \<Rightarrow> [])
      else if n = 0x75 then
        (case ap of Arg_uint w # ap' \<Rightarrow> decimal (unat w) @ fmt_render f ap' | _ \<Rightarrow> [])
      else if n = 0x55 then
        (case ap of Arg_ulonglong w # ap' \<Rightarrow> decimal (unat w) @ fmt_render f ap' | _ \<Rightarrow> [])
      else n # fmt_render f ap)"

fun fmt_args_ok :: "byte list \<Rightarrow> fmt_arg list \<Rightarrow> bool" where
  "fmt_args_ok [] ap = True"
| "fmt_args_ok [c] ap = (c \<noteq> 0x25)"
| "fmt_args_ok (c # n # f) ap =
     (if c \<noteq> 0x25 then fmt_args_ok (n # f) ap
      else if n = 0x73 then
        (case ap of
           Arg_str bs # ap' \<Rightarrow> fmt_args_ok f ap'
         | Arg_ni_string t # ap' \<Rightarrow> 0 \<in> set (buf t) \<and> fmt_args_ok f ap'
         | _ \<Rightarrow> False)
      else if n = 0x53 then
        (case ap of
           Arg_ni_string t # ap' \<Rightarrow> ni_string_len t \<le> length (buf t) \<and> fmt_args_ok f ap'
         | _ \<Rightarrow> False)
      else if n = 0x69 then
        (case ap of Arg_int w # ap' \<Rightarrow> fmt_args_ok f ap' | _ \<Rightarrow> False)
      else if n = 0x49 then
        (case ap of Arg_longlong w # ap' \<Rightarrow> fmt_args_ok f ap' | _ \<Rightarrow> False)
      else if n = 0x75 then
        (case ap of Arg_uint w # ap' \<Rightarrow> fmt_args_ok f ap' | _ \<Rightarrow> False)
      else if n = 0x55 then
        (case ap of Arg_ulonglong w # ap' \<Rightarrow> fmt_args_ok f ap' | _ \<Rightarrow> False)
      else fmt_args_ok f ap)"

text \<open>The string arguments that are strings of the library lie in live
  blocks other than the block of the destination.\<close>

definition args_apart :: "heap \<Rightarrow> ni_string \<Rightarrow> fmt_arg list \<Rightarrow> bool" where
  "args_apart h s ap \<longleftrightarrow>
     list_all (\<lambda>a. case a of
                     Arg_ni_string t \<Rightarrow> base t \<in> set (live h) \<and> base t \<noteq> base s
                   | _ \<Rightarrow> True) ap"

text \<open>One round of the loop of \<open>ni_string_cat_fmt\<close> in three parts: the room
  for one byte, the bytes the head of the format stands for (with the block
  they are read from, and whether they are one byte stored directly), and the
  format and the arguments left.\<close>

definition ensure_one :: "heap \<Rightarrow> ni_string \<Rightarrow> error + (ni_string option \<times> heap)" where
  "ensure_one h s =
     (if ni_string_avail s = 0 then ni_string_make_room_for h s 1 else Inr (Some s, h))"

definition fmt_piece ::
  "heap \<Rightarrow> ni_string \<Rightarrow> byte list \<Rightarrow> fmt_arg list \<Rightarrow>
   error + (byte list \<times> addr option \<times> bool)" where
  "fmt_piece h s f ap =
     (case f of
        [] \<Rightarrow> Inl Out_of_bounds
      | c # f1 \<Rightarrow>
          if c \<noteq> 0x25 then Inr ([c], None, True)
          else
            (case f1 of
               [] \<Rightarrow> Inl Out_of_bounds
             | n # f2 \<Rightarrow>
                 if n = 0x73 \<or> n = 0x53 then
                   (case ap of
                      [] \<Rightarrow> Inl Bad_vararg
                    | a # ap' \<Rightarrow>
                        (case a of
                           Arg_str bs \<Rightarrow>
                             if n = 0x73 then Inr (cstr bs, None, False) else Inl Bad_vararg
                         | Arg_ni_string t \<Rightarrow>
                             (case fmt_read h s t (n = 0x73) of
                                Inl e \<Rightarrow> Inl e
                              | Inr (str, blk) \<Rightarrow> Inr (str, blk, False))
                         | _ \<Rightarrow> Inl Bad_vararg))
                 else if n = 0x69 \<or> n = 0x49 then
                   (case ap of
                      [] \<Rightarrow> Inl Bad_vararg
                    | a # ap' \<Rightarrow>
                        (case a of
                           Arg_int w \<Rightarrow>
                             if n = 0x69 then Inr (ni_string_ll2str (sint w), None, False)
                             else Inl Bad_vararg
                         | Arg_longlong w \<Rightarrow>
                             if n = 0x49 then Inr (ni_string_ll2str (sint w), None, False)
                             else Inl Bad_vararg
                         | _ \<Rightarrow> Inl Bad_vararg))
                 else if n = 0x75 \<or> n = 0x55 then
                   (case ap of
                      [] \<Rightarrow> Inl Bad_vararg
                    | a # ap' \<Rightarrow>
                        (case a of
                           Arg_uint w \<Rightarrow>
                             if n = 0x75 then Inr (ni_string_ull2str (unat w), None, False)
                             else Inl Bad_vararg
                         | Arg_ulonglong w \<Rightarrow>
                             if n = 0x55 then Inr (ni_string_ull2str (unat w), None, False)
                             else Inl Bad_vararg
                         | _ \<Rightarrow> Inl Bad_vararg))
                 else Inr ([n], None, True)))"

definition fmt_rest :: "byte list \<Rightarrow> fmt_arg list \<Rightarrow> byte list \<times> fmt_arg list" where
  "fmt_rest f ap =
     (case f of
        [] \<Rightarrow> ([], ap)
      | c # f1 \<Rightarrow>
          if c \<noteq> 0x25 then (f1, ap)
          else
            (case f1 of
               [] \<Rightarrow> ([], ap)
             | n # f2 \<Rightarrow>
                 if n = 0x73 \<or> n = 0x53 \<or> n = 0x69 \<or> n = 0x49 \<or> n = 0x75 \<or> n = 0x55
                 then (f2, tl ap) else (f2, ap)))"

definition fmt_app ::
  "heap \<Rightarrow> ni_string \<Rightarrow> int \<Rightarrow> byte list \<times> addr option \<times> bool \<Rightarrow>
   error + (ni_string \<times> int \<times> heap)" where
  "fmt_app h s i p =
     (case p of (piece, blk, lit) \<Rightarrow>
        if lit then fmt_putc h s i (hd piece) else fmt_put h s i piece blk)"

text \<open>The destination \<open>"--"\<close> of the example as \<open>ni_string_new\<close> makes it on
  \<open>heap0\<close>, the format \<open>"Hello %s World %I,%I--"\<close> with its terminator, the
  three arguments \<open>"Hi!"\<close>, \<open>LLONG_MIN\<close> and \<open>LLONG_MAX\<close>, and the 60 bytes
  expected.\<close>

definition s_dashes :: ni_string where
  "s_dashes = \<lparr>base = 16, htype = NI_STRING_TYPE_5, hlen = 2, halloc = 2,
               buf = [0x2D, 0x2D, 0]\<rparr>"

definition fmt_hello :: "byte list" where
  "fmt_hello = [0x48, 0x65, 0x6C, 0x6C, 0x6F, 0x20, 0x25, 0x73, 0x20, 0x57, 0x6F, 0x72, 0x6C,
                0x64, 0x20, 0x25, 0x49, 0x2C, 0x25, 0x49, 0x2D, 0x2D, 0]"

definition args_hello :: "fmt_arg list" where
  "args_hello = [Arg_str [0x48, 0x69, 0x21, 0], Arg_longlong 0x8000000000000000,
                 Arg_longlong 0x7FFFFFFFFFFFFFFF]"

definition out_hello :: "byte list" where
  "out_hello = [0x2D, 0x2D, 0x48, 0x65, 0x6C, 0x6C, 0x6F, 0x20, 0x48, 0x69, 0x21, 0x20, 0x57,
                0x6F, 0x72, 0x6C, 0x64, 0x20,
                0x2D, 0x39, 0x32, 0x32, 0x33, 0x33, 0x37, 0x32, 0x30, 0x33, 0x36, 0x38, 0x35,
                0x34, 0x37, 0x37, 0x35, 0x38, 0x30, 0x38, 0x2C,
                0x39, 0x32, 0x32, 0x33, 0x33, 0x37, 0x32, 0x30, 0x33, 0x36, 0x38, 0x35, 0x34,
                0x37, 0x37, 0x35, 0x38, 0x30, 0x37, 0x2D, 0x2D]"

text \<open>A second example of the test suite: the format \<open>"%u,%U--"\<close> with the
  arguments \<open>UINT_MAX\<close> and \<open>ULLONG_MAX\<close>.\<close>

definition fmt_unsigned :: "byte list" where
  "fmt_unsigned = [0x25, 0x75, 0x2C, 0x25, 0x55, 0x2D, 0x2D, 0]"

definition args_unsigned :: "fmt_arg list" where
  "args_unsigned = [Arg_uint 0xFFFFFFFF, Arg_ulonglong 0xFFFFFFFFFFFFFFFF]"

definition out_unsigned :: "byte list" where
  "out_unsigned = [0x2D, 0x2D, 0x34, 0x32, 0x39, 0x34, 0x39, 0x36, 0x37, 0x32, 0x39, 0x35, 0x2C,
                   0x31, 0x38, 0x34, 0x34, 0x36, 0x37, 0x34, 0x34, 0x30, 0x37, 0x33, 0x37, 0x30,
                   0x39, 0x35, 0x35, 0x31, 0x36, 0x31, 0x35, 0x2D, 0x2D]"

section \<open>Basic facts, the allocator and growth\<close>

subsection \<open>Basic facts\<close>

lemma avail_valid: "valid s \<Longrightarrow> ni_string_avail s = ni_string_alloc s - ni_string_len s"
  by (cases "htype s")
     (auto simp: valid_def ni_string_avail_def ni_string_alloc_def ni_string_len_def to_size_t_def
        nat_diff_distrib' zmod_int)

lemma hdr_size_le: "ni_string_hdr_size t \<le> 17"
  by (cases t) auto

lemma hdr_size_pos: "0 < ni_string_hdr_size t"
  by (cases t) auto

lemma length_region: "length (region h a n old) = n"
  by (auto simp: region_def)

lemma take_region: "k \<le> length old \<Longrightarrow> k \<le> n \<Longrightarrow> take k (region h a n old) = take k old"
  by (auto simp: region_def)

lemma region_nth: "i < length old \<Longrightarrow> i < n \<Longrightarrow> region h a n old ! i = old ! i"
  by (auto simp: region_def nth_append)

lemma write_bytes_Inr:
  "write_bytes s off bs = Inr s' \<longleftrightarrow>
   off + length bs \<le> length (buf s) \<and>
   s' = s\<lparr>buf := take off (buf s) @ bs @ drop (off + length bs) (buf s)\<rparr>"
  by (auto simp: write_bytes_def)

lemma put_byte_Inr:
  "put_byte s off b = Inr s' \<longleftrightarrow> off < length (buf s) \<and> s' = s\<lparr>buf := (buf s)[off := b]\<rparr>"
  by (auto simp: put_byte_def write_bytes_def upd_conv_take_nth_drop)

lemma grow_type_bits: "n < 2 ^ 64 \<Longrightarrow> n < 2 ^ field_bits (grow_type n)"
  by (auto simp: ni_string_req_type_def grow_type_def)

lemma grow_type_not5: "grow_type n \<noteq> NI_STRING_TYPE_5"
  by (simp add: grow_type_def)

lemma grown_ge: "n \<le> grown n"
  by (simp add: grown_def)

subsection \<open>The allocator\<close>

lemma malloc_ok:
  "heap_ok h \<Longrightarrow>
   ni_string_malloc h n = Inr (brk h, h\<lparr>live := brk h # live h, brk := brk h + n + 1\<rparr>)"
  by (simp add: heap_ok_def ni_string_malloc_def ni_malloc_def)

lemma heap_ok_malloc:
  "heap_ok h \<Longrightarrow> heap_ok (h\<lparr>live := brk h # live h, brk := brk h + n + 1\<rparr>)"
  by (auto simp: heap_ok_def)

lemma realloc_ok:
  assumes "heap_ok h" "p \<in> set (live h)"
  shows "\<exists>p' h'. ni_string_realloc h p n = Inr (p', h') \<and> p' \<noteq> 0 \<and> moved h p h' p'"
  using assms
  by (auto simp: heap_ok_def moved_def ni_string_realloc_def ni_realloc_def)

lemma free_ok:
  assumes "heap_ok h" "p \<in> set (live h)"
  shows "ni_string_ptr_free h p = Inr (h\<lparr>live := removeAll p (live h)\<rparr>)"
  using assms by (auto simp: heap_ok_def ni_string_ptr_free_def ni_free_def)

lemma moved_refl: "heap_ok h \<Longrightarrow> p \<in> set (live h) \<Longrightarrow> moved h p h p"
  by (simp add: moved_def)

lemma moved_trans: "moved h p h' p' \<Longrightarrow> moved h' p' h'' p'' \<Longrightarrow> moved h p h'' p''"
  unfolding moved_def by (intro conjI ballI impI; metis)

lemma moved_malloc_free:
  assumes "heap_ok h" "p \<in> set (live h)"
  shows "moved h p (h\<lparr>live := removeAll p (brk h # live h), brk := brk h + n + 1\<rparr>) (brk h)"
  using assms by (fastforce simp: heap_ok_def moved_def)

subsection \<open>Growth\<close>

lemma set_alloc_not5:
  "htype s \<noteq> NI_STRING_TYPE_5 \<Longrightarrow> n < 2 ^ field_bits (htype s) \<Longrightarrow>
   ni_string_set_alloc s n = s\<lparr>halloc := n\<rparr>"
  by (cases "htype s") (simp_all add: ni_string_set_alloc_def)

lemma set_len_small:
  "n < 2 ^ field_bits (htype s) \<Longrightarrow> ni_string_set_len s n = s\<lparr>hlen := n\<rparr>"
  by (simp add: ni_string_set_len_def)

lemma mrf_noop:
  "addlen \<le> ni_string_avail s \<Longrightarrow> ni_string_make_room_for h s addlen = Inr (Some s, h)"
  by (simp add: ni_string_make_room_for_def)

lemma mrf_unfold:
  assumes v: "valid s" and lt: "ni_string_avail s < addlen"
    and fit: "fits (ni_string_len s) addlen"
  shows "ni_string_make_room_for h s addlen =
    (let n = grown (ni_string_len s + addlen); ty = grow_type n; hl = ni_string_hdr_size ty in
     if htype s = ty
     then (case ni_string_realloc h (base s) (hl + n + 1) of
             Inl e \<Rightarrow> Inl e
           | Inr (newsh, h') \<Rightarrow>
               if newsh = 0 then Inr (None, h')
               else Inr (Some (s\<lparr>base := newsh, halloc := n,
                                 buf := region h' (newsh + hl) (n + 1) (buf s)\<rparr>), h'))
     else (case ni_string_malloc h (hl + n + 1) of
             Inl e \<Rightarrow> Inl e
           | Inr (newsh, h1) \<Rightarrow>
               if newsh = 0 then Inr (None, h1)
               else (case ni_string_ptr_free h1 (base s) of
                       Inl e \<Rightarrow> Inl e
                     | Inr h2 \<Rightarrow>
                         Inr (Some (s\<lparr>base := newsh, htype := ty, hlen := hlen s, halloc := n,
                                      buf := region h2 (newsh + hl) (n + 1)
                                               (take (hlen s + 1) (buf s))\<rparr>), h2))))"
proof -
  let ?n = "ni_string_len s + addlen"
  let ?t = "grow_type (grown ?n)"
  let ?hl = "ni_string_hdr_size ?t"
  have fit': "?n + NI_STRING_MAX_PREALLOC + 18 < 2 ^ 64" using fit by (simp add: fits_def)
  have n: "size_add (ni_string_len s) addlen = ?n"
    using fit' by (simp add: size_add_def)
  have g: "(if ?n < NI_STRING_MAX_PREALLOC then (?n * 2) mod 2 ^ 64
            else size_add ?n NI_STRING_MAX_PREALLOC) = grown ?n"
    using fit' by (auto simp: grown_def size_add_def NI_STRING_MAX_PREALLOC_def)
  have gb: "grown ?n + 18 < 2 ^ 64"
    using fit' by (auto simp: grown_def NI_STRING_MAX_PREALLOC_def)
  have gl: "ni_string_len s < grown ?n"
    using lt v by (auto simp: grown_def avail_valid)
  have sz: "size_add (size_add ?hl (grown ?n)) 1 = ?hl + grown ?n + 1"
  proof -
    have "?hl + grown ?n < 2 ^ 64" "?hl + grown ?n + 1 < 2 ^ 64"
      using gb hdr_size_le[of ?t] by simp_all
    then show ?thesis by (simp add: size_add_def)
  qed
  have bits: "grown ?n < 2 ^ field_bits ?t" using gb by (intro grow_type_bits) simp
  have t5: "?t \<noteq> NI_STRING_TYPE_5" by (rule grow_type_not5)
  have lb: "hlen s < length (buf s)" using v by (simp add: valid_def ni_string_len_def)
  have hb: "hlen s < 2 ^ field_bits ?t" using gl bits by (simp add: ni_string_len_def)
  have notge: "\<not> addlen \<le> ni_string_avail s" using lt by simp
  have hd: "handle s - ni_string_hdr_size (htype s) = base s" by (simp add: handle_def)
  have oob: "\<not> (length (buf s) < ni_string_len s + 1 \<or> ?hl + grown ?n + 1 - ?hl < ni_string_len s + 1)"
    using lb gl by (simp add: ni_string_len_def)
  note defs = ni_string_make_room_for_def Let_def n g sz grow_type_def[symmetric] hd
  show ?thesis
  proof (cases "htype s = ?t")
    case True
    have bits': "grown ?n < 2 ^ field_bits (htype s)" using bits True by simp
    have t5': "htype s \<noteq> NI_STRING_TYPE_5" using t5 True by simp
    show ?thesis
      unfolding defs using notge True[symmetric] t5' bits'
      by (simp add: set_alloc_not5 split: sum.splits prod.splits)
  next
    case False
    show ?thesis
      unfolding defs using notge oob False t5 bits hb
      by (simp add: set_alloc_not5 set_len_small ni_string_len_def split: sum.splits prod.splits)
  qed
qed


lemma mrf_grow_result:
  assumes v: "valid s" and lt: "ni_string_avail s < addlen"
    and fit: "fits (ni_string_len s) addlen"
    and r: "ni_string_make_room_for h s addlen = Inr (Some s', h')"
  shows "htype s' = grow_type (grown (ni_string_len s + addlen))"
    and "hlen s' = hlen s"
    and "halloc s' = grown (ni_string_len s + addlen)"
    and "length (buf s') = grown (ni_string_len s + addlen) + 1"
    and "take (hlen s + 1) (buf s') = take (hlen s + 1) (buf s)"
proof -
  let ?n = "grown (ni_string_len s + addlen)"
  have gl: "hlen s < ?n"
    using lt v by (auto simp: grown_def avail_valid ni_string_len_def)
  have lb: "hlen s < length (buf s)" using v by (simp add: valid_def ni_string_len_def)
  note u = r[unfolded mrf_unfold[OF v lt fit] Let_def]
  show "htype s' = grow_type ?n" "hlen s' = hlen s" "halloc s' = ?n" "length (buf s') = ?n + 1"
    using u by (auto simp: length_region split: if_splits sum.splits prod.splits)
  show "take (hlen s + 1) (buf s') = take (hlen s + 1) (buf s)"
    using u gl lb by (auto simp: take_region split: if_splits sum.splits prod.splits)
qed

lemma mrf_grow_valid:
  assumes v: "valid s" and lt: "ni_string_avail s < addlen"
    and fit: "fits (ni_string_len s) addlen"
    and r: "ni_string_make_room_for h s addlen = Inr (Some s', h')"
  shows "valid s'" and "content s' = content s" and "ni_string_len s' = ni_string_len s"
    and "ni_string_alloc s' = grown (ni_string_len s + addlen)"
    and "addlen \<le> ni_string_avail s'"
proof -
  let ?n = "grown (ni_string_len s + addlen)"
  note sh = mrf_grow_result[OF v lt fit r]
  have gb: "?n + 18 < 2 ^ 64"
    using fit by (auto simp: fits_def grown_def NI_STRING_MAX_PREALLOC_def)
  have gl: "hlen s + addlen \<le> ?n"
    using grown_ge[of "ni_string_len s + addlen"] by (simp add: ni_string_len_def)
  have pos: "0 < addlen" using lt by simp
  have lb: "hlen s < length (buf s)" using v by (simp add: valid_def ni_string_len_def)
  have z: "buf s ! hlen s = 0" using v by (simp add: valid_def ni_string_len_def)
  have t5: "htype s' \<noteq> NI_STRING_TYPE_5" using sh(1) by (simp add: grow_type_not5)
  have al: "ni_string_alloc s' = ?n"
    using t5 sh(3) by (cases "htype s'") (simp_all add: ni_string_alloc_def)
  show "ni_string_alloc s' = ?n" by (rule al)
  show l: "ni_string_len s' = ni_string_len s" using sh(2) by (simp add: ni_string_len_def)
  show c: "content s' = content s"
  proof -
    have "take (hlen s) (take (hlen s + 1) (buf s')) = take (hlen s) (take (hlen s + 1) (buf s))"
      using sh(5) by simp
    then show ?thesis by (simp add: content_def ni_string_len_def sh(2) min_def)
  qed
  have nth: "buf s' ! hlen s = buf s ! hlen s"
  proof -
    have "take (hlen s + 1) (buf s') ! hlen s = take (hlen s + 1) (buf s) ! hlen s"
      using sh(5) by simp
    then show ?thesis by simp
  qed
  have bits: "?n < 2 ^ field_bits (htype s')"
    unfolding sh(1) using gb by (intro grow_type_bits) simp
  have hs: "ni_string_hdr_size (htype s') + (?n + 1) < 2 ^ 64"
    using gb hdr_size_le[of "htype s'"] by simp
  show v': "valid s'"
    unfolding valid_def al l using gl pos bits hs nth z t5
    by (simp add: ni_string_len_def sh(2) sh(4))
  show "addlen \<le> ni_string_avail s'"
    using avail_valid[OF v'] al l gl by (simp add: ni_string_len_def)
qed

lemma mrf_result:
  assumes v: "valid s" and fit: "fits (ni_string_len s) addlen"
    and r: "ni_string_make_room_for h s addlen = Inr (Some s', h')"
  shows "valid s'" and "content s' = content s" and "ni_string_len s' = ni_string_len s"
    and "addlen \<le> ni_string_avail s'"
proof -
  have "valid s' \<and> content s' = content s \<and> ni_string_len s' = ni_string_len s \<and>
        addlen \<le> ni_string_avail s'"
  proof (cases "addlen \<le> ni_string_avail s")
    case True
    then show ?thesis using r v by (simp add: mrf_noop)
  next
    case False
    then have lt: "ni_string_avail s < addlen" by simp
    show ?thesis using mrf_grow_valid[OF v lt fit r] by simp
  qed
  then show "valid s'" "content s' = content s" "ni_string_len s' = ni_string_len s"
    "addlen \<le> ni_string_avail s'" by simp_all
qed

lemma mrf_ok:
  assumes hk: "heap_ok h" and ow: "base s \<in> set (live h)"
    and v: "valid s" and fit: "fits (ni_string_len s) addlen"
  shows "\<exists>s' h'. ni_string_make_room_for h s addlen = Inr (Some s', h') \<and>
                  moved h (base s) h' (base s')"
proof (cases "addlen \<le> ni_string_avail s")
  case True
  then show ?thesis using hk ow by (simp add: mrf_noop moved_refl)
next
  case False
  then have lt: "ni_string_avail s < addlen" by simp
  let ?n = "grown (ni_string_len s + addlen)"
  let ?t = "grow_type ?n"
  show ?thesis
  proof (cases "htype s = ?t")
    case True
    obtain p' h' where re: "ni_string_realloc h (base s) (ni_string_hdr_size ?t + ?n + 1) = Inr (p', h')"
      and nz: "p' \<noteq> 0" and mv: "moved h (base s) h' p'"
      using realloc_ok[OF hk ow] by blast
    show ?thesis
      unfolding mrf_unfold[OF v lt fit] Let_def using True re nz mv by simp
  next
    case Fa: False
    have bp: "0 < brk h" using hk by (simp add: heap_ok_def)
    let ?h1 = "h\<lparr>live := brk h # live h, brk := brk h + (ni_string_hdr_size ?t + ?n + 1) + 1\<rparr>"
    have h1: "heap_ok ?h1" by (rule heap_ok_malloc[OF hk])
    have ow1: "base s \<in> set (live ?h1)" using ow by simp
    have ne: "base s \<noteq> brk h" using hk ow by (auto simp: heap_ok_def)
    show ?thesis
      unfolding mrf_unfold[OF v lt fit] Let_def
      using Fa bp hk ow ne
      by (auto simp: malloc_ok[OF hk] ni_string_ptr_free_def ni_free_def moved_def heap_ok_def)
  qed
qed

section \<open>The growth engine\<close>

lemma heap_ok_heap1: "heap_ok heap1"
  by (simp add: heap_ok_def heap1_def heap0_def)

lemma valid_s_abc5: "valid s_abc5"
  by (simp add: valid_def s_abc5_def ni_string_len_def ni_string_alloc_def)

lemma valid_s_abc8: "valid s_abc8"
  by (simp add: valid_def s_abc8_def ni_string_len_def ni_string_alloc_def)

text \<open>
  Within the range of \<open>size_t\<close> the growth engine does what its contract
  says. \<open>ni_string_make_room_for\<close> returns the handle and the heap unchanged
  when the spare capacity covers the request. Otherwise, for a valid buffer
  and a request whose grown size does not wrap around
  (\<open>len + addlen + 1 MiB + 18 < 2 ^ 64\<close>), a successful call yields capacity
  \<open>2 * (len + addlen)\<close> below 1 MiB and \<open>len + addlen + 1 MiB\<close> from there on,
  the header type required for that capacity with type 8 in the place of
  type 5, the same length and content, and a buffer on which the same or a
  smaller request is a no-op; and the call does succeed when the allocator
  grants every request and the block is live.
\<close>

theorem make_room_for_capacity:
  "(addlen \<le> ni_string_avail s \<longrightarrow> ni_string_make_room_for h s addlen = Inr (Some s, h)) \<and>
   (valid s \<and> ni_string_avail s < addlen \<and> fits (ni_string_len s) addlen \<longrightarrow>
      (\<forall>s' h'. ni_string_make_room_for h s addlen = Inr (Some s', h') \<longrightarrow>
         ni_string_alloc s' =
           (if ni_string_len s + addlen < NI_STRING_MAX_PREALLOC
            then 2 * (ni_string_len s + addlen)
            else ni_string_len s + addlen + NI_STRING_MAX_PREALLOC) \<and>
         htype s' =
           (if ni_string_req_type (ni_string_alloc s') = NI_STRING_TYPE_5
            then NI_STRING_TYPE_8 else ni_string_req_type (ni_string_alloc s')) \<and>
         valid s' \<and>
         ni_string_len s' = ni_string_len s \<and> content s' = content s \<and>
         (\<forall>a \<le> addlen. ni_string_make_room_for h' s' a = Inr (Some s', h'))) \<and>
      (heap_ok h \<and> base s \<in> set (live h) \<longrightarrow>
         (\<exists>s' h'. ni_string_make_room_for h s addlen = Inr (Some s', h'))))"
proof (intro conjI impI allI)
  assume "addlen \<le> ni_string_avail s"
  then show "ni_string_make_room_for h s addlen = Inr (Some s, h)" by (rule mrf_noop)
next
  fix s' h'
  assume a: "valid s \<and> ni_string_avail s < addlen \<and> fits (ni_string_len s) addlen"
    and r: "ni_string_make_room_for h s addlen = Inr (Some s', h')"
  from a have v: "valid s" and lt: "ni_string_avail s < addlen"
    and fit: "fits (ni_string_len s) addlen" by simp_all
  note sh = mrf_grow_result[OF v lt fit r]
  note vl = mrf_grow_valid[OF v lt fit r]
  show "ni_string_alloc s' =
           (if ni_string_len s + addlen < NI_STRING_MAX_PREALLOC
            then 2 * (ni_string_len s + addlen)
            else ni_string_len s + addlen + NI_STRING_MAX_PREALLOC)"
    using vl(4) by (simp add: grown_def)
  show "htype s' =
           (if ni_string_req_type (ni_string_alloc s') = NI_STRING_TYPE_5
            then NI_STRING_TYPE_8 else ni_string_req_type (ni_string_alloc s'))"
    using sh(1) vl(4) by (simp add: grow_type_def)
  show "valid s'" by (rule vl(1))
  show "ni_string_len s' = ni_string_len s" by (rule vl(3))
  show "content s' = content s" by (rule vl(2))
  show "\<And>a. a \<le> addlen \<Longrightarrow> ni_string_make_room_for h' s' a = Inr (Some s', h')"
    using vl(5) by (intro mrf_noop) simp
next
  assume a: "valid s \<and> ni_string_avail s < addlen \<and> fits (ni_string_len s) addlen"
    and b: "heap_ok h \<and> base s \<in> set (live h)"
  then show "\<exists>s' h'. ni_string_make_room_for h s addlen = Inr (Some s', h')"
    using mrf_ok[of h s addlen] by blast
qed

theorem make_room_for_capacity_witness:
  "valid s_abc5 \<and> ni_string_avail s_abc5 < 10 \<and> fits (ni_string_len s_abc5) 10 \<and>
   heap_ok heap1 \<and> base s_abc5 \<in> set (live heap1) \<and>
   (case ni_string_make_room_for heap1 s_abc5 10 of
      Inr (Some s', h') \<Rightarrow>
        ni_string_alloc s' = 26 \<and> htype s' = NI_STRING_TYPE_8 \<and>
        ni_string_make_room_for h' s' 10 = Inr (Some s', h')
    | _ \<Rightarrow> False)"
proof -
  have p: "valid s_abc5 \<and> ni_string_avail s_abc5 < 10 \<and> fits (ni_string_len s_abc5) 10"
    using valid_s_abc5
    by (simp add: s_abc5_def ni_string_avail_def fits_def ni_string_len_def
        NI_STRING_MAX_PREALLOC_def)
  have q: "heap_ok heap1 \<and> base s_abc5 \<in> set (live heap1)"
    using heap_ok_heap1 by (simp add: heap1_def s_abc5_def)
  note t = make_room_for_capacity[of 10 s_abc5 heap1]
  from t p q obtain s' h' where r: "ni_string_make_room_for heap1 s_abc5 10 = Inr (Some s', h')"
    by blast
  from t p r have al: "ni_string_alloc s' = 26"
    and ty: "htype s' =
           (if ni_string_req_type (ni_string_alloc s') = NI_STRING_TYPE_5
            then NI_STRING_TYPE_8 else ni_string_req_type (ni_string_alloc s'))"
    and ag: "ni_string_make_room_for h' s' 10 = Inr (Some s', h')"
    by (simp_all add: s_abc5_def ni_string_len_def NI_STRING_MAX_PREALLOC_def)
  have "htype s' = NI_STRING_TYPE_8"
    using ty unfolding al by (simp add: ni_string_req_type_def)
  with al ag have "ni_string_alloc s' = 26 \<and> htype s' = NI_STRING_TYPE_8 \<and>
        ni_string_make_room_for h' s' 10 = Inr (Some s', h')" by simp
  with p q r show ?thesis by simp
qed

text \<open>
  Claim C2. The sums \<open>len + addlen\<close>, \<open>+ 1 MiB\<close> and
  \<open>hdrlen + newlen + 1\<close> are computed in \<open>size_t\<close> and nothing checks them.
  On the string \<open>"foo"\<close> built by \<open>ni_string_empty\<close> and three appends of one
  byte (length 3, capacity 6, type 8), a request of \<open>2 ^ 64 - 2 ^ 20 - 3\<close>
  bytes exceeds the spare capacity, the new capacity wraps to 0, and the call
  returns a handle, not \<open>NULL\<close>: the block is cut to one data byte, the
  capacity field is 0 and the length is still 3. The capacity is not
  \<open>len + addlen + 1 MiB\<close>, and not one of the requested bytes may be written.
\<close>

theorem make_room_for_wraps:
  "ni_string_make_room_for heap_tok tok_foo 18446744073708503037 =
   Inr (Some (tok_foo\<lparr>halloc := 0, buf := [0x66]\<rparr>), heap_tok)"
  apply (simp add: ni_string_make_room_for_def Let_def tok_foo_def ni_string_avail_def
      ni_string_len_def to_size_t_def size_add_def NI_STRING_MAX_PREALLOC_def)
  apply (simp add: ni_string_req_type_def handle_def)
  apply (simp add: heap_tok_def heap0_def ni_string_realloc_def ni_realloc_def)
  apply (simp add: ni_string_set_alloc_def region_def size_add_def NI_STRING_MAX_PREALLOC_def)
  done

text \<open>The string the call was given is valid and lacks the room asked for;
  the one it returns has its length above its capacity and above the size of
  its block.\<close>

lemma valid_tok_foo: "valid tok_foo"
  by (simp add: valid_def tok_foo_def ni_string_len_def ni_string_alloc_def)

lemma make_room_for_wraps_broken:
  "ni_string_avail tok_foo < 18446744073708503037 \<and>
   ni_string_len (tok_foo\<lparr>halloc := 0, buf := [0x66]\<rparr>) = 3 \<and>
   ni_string_alloc (tok_foo\<lparr>halloc := 0, buf := [0x66]\<rparr>) = 0 \<and>
   length (buf (tok_foo\<lparr>halloc := 0, buf := [0x66]\<rparr>)) = 1 \<and>
   \<not> valid (tok_foo\<lparr>halloc := 0, buf := [0x66]\<rparr>)"
  by (simp add: tok_foo_def ni_string_avail_def ni_string_len_def ni_string_alloc_def
      to_size_t_def valid_def)

section \<open>Length adjustment and clearing\<close>

lemma incr_len_grow:
  assumes t5: "htype s \<noteq> NI_STRING_TYPE_5"
    and v: "hlen s \<le> halloc s" "halloc s < 2 ^ field_bits (htype s)" "halloc s < length (buf s)"
    and i: "0 \<le> incr" "nat incr \<le> halloc s - hlen s"
  shows "ni_string_incr_len h s incr =
         Inr (s\<lparr>hlen := hlen s + nat incr, buf := (buf s)[hlen s + nat incr := 0]\<rparr>, h)"
proof -
  have le: "int (hlen s) + incr \<le> int (halloc s)" using v i by linarith
  have nn: "0 \<le> int (hlen s) + incr" using i by simp
  have eq: "nat (int (hlen s) + incr) = hlen s + nat incr" using i by (simp add: nat_add_distrib)
  have lb: "hlen s + nat incr < length (buf s)" using v i by linarith
  show ?thesis
  proof (cases "htype s")
    case NI_STRING_TYPE_5
    then show ?thesis using t5 by simp
  next
    case NI_STRING_TYPE_8
    then have b: "int (hlen s) + incr < 256" using le v by simp
    show ?thesis
      using NI_STRING_TYPE_8 le nn b lb i
      by (simp add: ni_string_incr_len_def Let_def put_byte_def write_bytes_def eq
          upd_conv_take_nth_drop)
  next
    case NI_STRING_TYPE_16
    then have b: "int (hlen s) + incr < 65536" using le v by simp
    show ?thesis
      using NI_STRING_TYPE_16 le nn b lb i
      by (simp add: ni_string_incr_len_def Let_def put_byte_def write_bytes_def eq
          upd_conv_take_nth_drop)
  next
    case NI_STRING_TYPE_32
    then have b: "int (hlen s) + incr < 4294967296" "int (halloc s) < 4294967296"
      using le v by simp_all
    have c: "incr < 4294967296" using b nn le by linarith
    have d: "int (halloc s) - int (hlen s) < 4294967296" "0 \<le> int (halloc s) - int (hlen s)"
      using b v by linarith+
    show ?thesis
      using NI_STRING_TYPE_32 le nn b c d lb i
      by (simp add: ni_string_incr_len_def Let_def put_byte_def write_bytes_def eq to_uint_def
          upd_conv_take_nth_drop)
  next
    case NI_STRING_TYPE_64
    then have b: "int (hlen s) + incr < 18446744073709551616"
      "int (halloc s) < 18446744073709551616"
      using le v by simp_all
    have c: "incr < 18446744073709551616" using b nn le by linarith
    have d: "int (halloc s) - int (hlen s) < 18446744073709551616"
      "0 \<le> int (halloc s) - int (hlen s)"
      using b v by linarith+
    show ?thesis
      using NI_STRING_TYPE_64 le nn b c d lb i
      by (simp add: ni_string_incr_len_def Let_def put_byte_def write_bytes_def eq
          upd_conv_take_nth_drop)
  qed
qed

lemma incr_len_shrink:
  assumes v: "valid s" and i: "incr < 0" "nat (- incr) \<le> ni_string_len s"
  shows "ni_string_incr_len h s incr =
         Inr (s\<lparr>hlen := hlen s - nat (- incr), buf := (buf s)[hlen s - nat (- incr) := 0]\<rparr>, h)"
proof -
  have bits: "hlen s < 2 ^ field_bits (htype s)" and lb: "hlen s < length (buf s)"
    using v by (simp_all add: valid_def ni_string_len_def)
  have nn: "0 \<le> int (hlen s) + incr" "int (hlen s) + incr \<le> int (hlen s)"
    using i by (simp_all add: ni_string_len_def)
  have eq: "nat (int (hlen s) + incr) = hlen s - nat (- incr)" using i nn by linarith
  have lb': "hlen s - nat (- incr) < length (buf s)" using lb by simp
  have m: "- incr \<le> int (hlen s)" using nn by simp
  show ?thesis
  proof (cases "htype s")
    case NI_STRING_TYPE_5
    then have b: "int (hlen s) < 32" using bits by simp
    then have u: "- incr < 4294967296" "int (hlen s) + incr < 32" using m nn by linarith+
    show ?thesis
      using NI_STRING_TYPE_5 i nn u m lb'
      by (simp add: ni_string_incr_len_def Let_def put_byte_def write_bytes_def eq to_uint_def
          to_size_t_def upd_conv_take_nth_drop)
  next
    case NI_STRING_TYPE_8
    then have b: "int (hlen s) < 256" using bits by simp
    then have u: "- incr < 4294967296" "int (hlen s) + incr < 256" using m nn by linarith+
    show ?thesis
      using NI_STRING_TYPE_8 i nn u m lb'
      by (simp add: ni_string_incr_len_def Let_def put_byte_def write_bytes_def eq to_uint_def
          upd_conv_take_nth_drop)
  next
    case NI_STRING_TYPE_16
    then have b: "int (hlen s) < 65536" using bits by simp
    then have u: "- incr < 4294967296" "int (hlen s) + incr < 65536" using m nn by linarith+
    show ?thesis
      using NI_STRING_TYPE_16 i nn u m lb'
      by (simp add: ni_string_incr_len_def Let_def put_byte_def write_bytes_def eq to_uint_def
          upd_conv_take_nth_drop)
  next
    case NI_STRING_TYPE_32
    then have b: "int (hlen s) < 4294967296" using bits by simp
    then have u: "- incr < 4294967296" "int (hlen s) + incr < 4294967296"
      using m nn by linarith+
    show ?thesis
      using NI_STRING_TYPE_32 i nn u m lb'
      by (simp add: ni_string_incr_len_def Let_def put_byte_def write_bytes_def eq to_uint_def
          upd_conv_take_nth_drop)
  next
    case NI_STRING_TYPE_64
    then have b: "int (hlen s) < 18446744073709551616" using bits by simp
    then have u: "- incr < 18446744073709551616" "int (hlen s) + incr < 18446744073709551616"
      using m nn by linarith+
    show ?thesis
      using NI_STRING_TYPE_64 i nn u m lb'
      by (simp add: ni_string_incr_len_def Let_def put_byte_def write_bytes_def eq
          upd_conv_take_nth_drop)
  qed
qed

lemma valid_upd:
  assumes "valid s" "n \<le> ni_string_alloc s" "htype s \<noteq> NI_STRING_TYPE_5 \<or> n = ni_string_alloc s"
  shows "valid (s\<lparr>hlen := n, buf := (buf s)[n := 0]\<rparr>)"
  using assms
  by (cases "htype s") (auto simp: valid_def ni_string_len_def ni_string_alloc_def)

lemma valid_upd5:
  assumes "valid s" "htype s = NI_STRING_TYPE_5" "n \<le> ni_string_len s"
  shows "valid (s\<lparr>hlen := n, buf := (buf s)[n := 0]\<rparr>)"
  using assms by (auto simp: valid_def ni_string_len_def ni_string_alloc_def)

text \<open>What \<open>ni_string_incr_len\<close> does within its contract, for every header
  type but type 5 with a non-negative increment: no assertion trips, the
  length becomes \<open>len + incr\<close>, the terminator is written there, and the heap,
  the block address and the header type stay as they are.\<close>

lemma incr_len_contract:
  assumes v: "valid s"
    and pre: "(0 \<le> incr \<and> nat incr \<le> ni_string_avail s \<and> htype s \<noteq> NI_STRING_TYPE_5) \<or>
              (incr < 0 \<and> nat (- incr) \<le> ni_string_len s)"
  shows "\<exists>s'. ni_string_incr_len h s incr = Inr (s', h) \<and>
              int (ni_string_len s') = int (ni_string_len s) + incr \<and>
              buf s' ! ni_string_len s' = 0 \<and> base s' = base s \<and> htype s' = htype s \<and>
              halloc s' = halloc s \<and> valid s'"
proof -
  from pre show ?thesis
  proof
    assume a: "0 \<le> incr \<and> nat incr \<le> ni_string_avail s \<and> htype s \<noteq> NI_STRING_TYPE_5"
    then have t5: "htype s \<noteq> NI_STRING_TYPE_5" by simp
    have al: "ni_string_alloc s = halloc s"
      using t5 by (cases "htype s") (simp_all add: ni_string_alloc_def)
    have f: "hlen s \<le> halloc s" "halloc s < 2 ^ field_bits (htype s)"
      "halloc s < length (buf s)"
      using v al by (simp_all add: valid_def ni_string_len_def)
    have i: "0 \<le> incr" "nat incr \<le> halloc s - hlen s"
      using a avail_valid[OF v] al by (simp_all add: ni_string_len_def)
    have le: "hlen s + nat incr \<le> ni_string_alloc s" using i f al by linarith
    have v': "valid (s\<lparr>hlen := hlen s + nat incr, buf := (buf s)[hlen s + nat incr := 0]\<rparr>)"
      by (rule valid_upd[OF v le]) (simp add: t5)
    have lb: "hlen s + nat incr < length (buf s)" using le f al by simp
    show ?thesis
      using incr_len_grow[OF t5 f i, of h] v' lb i
      by (simp add: ni_string_len_def)
  next
    assume a: "incr < 0 \<and> nat (- incr) \<le> ni_string_len s"
    then have i: "incr < 0" "nat (- incr) \<le> ni_string_len s" by simp_all
    have lb: "hlen s < length (buf s)" using v by (simp add: valid_def ni_string_len_def)
    have "hlen s \<le> ni_string_alloc s" using v by (simp add: valid_def ni_string_len_def)
    then have le: "hlen s - nat (- incr) \<le> ni_string_alloc s" by linarith
    have v': "valid (s\<lparr>hlen := hlen s - nat (- incr),
                         buf := (buf s)[hlen s - nat (- incr) := 0]\<rparr>)"
    proof (cases "htype s = NI_STRING_TYPE_5")
      case True
      show ?thesis by (rule valid_upd5[OF v True]) (simp add: ni_string_len_def)
    next
      case False
      show ?thesis by (rule valid_upd[OF v le]) (simp add: False)
    qed
    have e: "int (hlen s - nat (- incr)) = int (hlen s) + incr"
      using i by (simp add: ni_string_len_def)
    show ?thesis
      using incr_len_shrink[OF v i, of h] v' lb e
      by (simp add: ni_string_len_def)
  qed
qed

text \<open>
  Claim C9. On a type 5 buffer the spare capacity is 0, so the only
  non-negative increment the claim admits is 0; the type 5 branch asserts
  \<open>incr > 0\<close> where the four other branches assert \<open>incr >= 0\<close>, and the
  assertion trips: \<open>ni_string_incr_len\<close> on the type 5 string \<open>"abc"\<close> with
  increment 0 aborts.
\<close>

theorem incr_len_type5_zero_aborts:
  "ni_string_incr_len heap1 s_abc5 0 = Inl Assert_failed"
  by (simp add: ni_string_incr_len_def s_abc5_def)

text \<open>
  Claim C10, amended. For every valid buffer \<open>ni_string_clear\<close> returns with
  the heap as it was (nothing is allocated, reallocated or freed); the block
  address, the handle, the header type, the alloc field and the size of the
  block are unchanged, the length is 0 and the byte at offset 0 is zero. With
  a header of type 8 to 64 the whole capacity is spare afterwards; a type 5
  buffer has no alloc field and no spare capacity after the call.
\<close>

theorem clear_keeps_block:
  assumes "valid s"
  shows "\<exists>s'. ni_string_clear h s = Inr (s', h) \<and>
              base s' = base s \<and> handle s' = handle s \<and> htype s' = htype s \<and>
              halloc s' = halloc s \<and> length (buf s') = length (buf s) \<and>
              ni_string_len s' = 0 \<and> buf s' ! 0 = 0 \<and> valid s' \<and>
              ni_string_avail s' =
                (if htype s = NI_STRING_TYPE_5 then 0 else ni_string_alloc s)"
proof -
  let ?s = "s\<lparr>hlen := 0, buf := (buf s)[0 := 0]\<rparr>"
  have "ni_string_alloc s < length (buf s)" using assms by (simp add: valid_def)
  then have lb: "0 < length (buf s)" by linarith
  have r: "ni_string_clear h s = Inr (?s, h)"
    using lb
    by (cases "buf s")
       (simp_all add: ni_string_clear_def ni_string_set_len_def put_byte_def write_bytes_def)
  have v: "valid ?s"
  proof (cases "htype s = NI_STRING_TYPE_5")
    case True
    show ?thesis by (rule valid_upd5[OF assms True]) simp
  next
    case False
    show ?thesis by (rule valid_upd[OF assms]) (simp_all add: False)
  qed
  have av: "ni_string_avail ?s = (if htype s = NI_STRING_TYPE_5 then 0 else ni_string_alloc s)"
    using avail_valid[OF v] by (cases "htype s") (simp_all add: ni_string_alloc_def ni_string_len_def)
  show ?thesis
    using r v av lb by (simp add: handle_def ni_string_len_def)
qed

theorem clear_keeps_block_witness:
  "valid s_abc8 \<and>
   (\<exists>s'. ni_string_clear heap1 s_abc8 = Inr (s', heap1) \<and> htype s' = NI_STRING_TYPE_8 \<and>
         ni_string_len s' = 0 \<and> ni_string_avail s' = 3)"
proof -
  obtain s' where "ni_string_clear heap1 s_abc8 = Inr (s', heap1)"
    "htype s' = htype s_abc8" "ni_string_len s' = 0"
    "ni_string_avail s' =
       (if htype s_abc8 = NI_STRING_TYPE_5 then 0 else ni_string_alloc s_abc8)"
    using clear_keeps_block[OF valid_s_abc8, of heap1] by blast
  then show ?thesis
    using valid_s_abc8 by (auto simp: s_abc8_def ni_string_alloc_def)
qed

text \<open>The claim as stated fails on a type 5 buffer: after clearing the string
  \<open>"abc"\<close> the reported capacity has gone from 3 to 0 and no spare capacity
  is left for the next append.\<close>

theorem clear_type5_counterexample:
  "valid s_abc5 \<and> ni_string_alloc s_abc5 = 3 \<and>
   (case ni_string_clear heap1 s_abc5 of
      Inr (s', h') \<Rightarrow> ni_string_alloc s' = 0 \<and> ni_string_avail s' = 0
    | Inl e \<Rightarrow> False)"
  using valid_s_abc5
  by (simp add: ni_string_clear_def ni_string_set_len_def put_byte_def write_bytes_def
      s_abc5_def ni_string_alloc_def ni_string_avail_def)

section \<open>Shrinking to fit\<close>

lemma avail_nonzero_not5: "ni_string_avail s \<noteq> 0 \<Longrightarrow> htype s \<noteq> NI_STRING_TYPE_5"
  by (auto simp: ni_string_avail_def)

lemma req_type_bits: "n < 2 ^ 64 \<Longrightarrow> n < 2 ^ field_bits (ni_string_req_type n)"
  by (auto simp: ni_string_req_type_def)

lemma rfs_noop:
  "ni_string_avail s = 0 \<Longrightarrow> ni_string_remove_free_space h s = Inr (Some s, h)"
  by (simp add: ni_string_remove_free_space_def Let_def)

lemma rfs_unfold:
  assumes v: "valid s" and av: "ni_string_avail s \<noteq> 0"
  shows "ni_string_remove_free_space h s =
    (let len = hlen s; ty = ni_string_req_type len; oh = ni_string_hdr_size (htype s);
         hl = ni_string_hdr_size ty in
     if htype s = ty \<or> type_code ty > type_code NI_STRING_TYPE_8
     then (case ni_string_realloc h (base s) (oh + len + 1) of
             Inl e \<Rightarrow> Inl e
           | Inr (newsh, h') \<Rightarrow>
               if newsh = 0 then Inr (None, h')
               else Inr (Some (s\<lparr>base := newsh, halloc := len,
                                 buf := region h' (newsh + oh) (len + 1) (buf s)\<rparr>), h'))
     else (case ni_string_malloc h (hl + len + 1) of
             Inl e \<Rightarrow> Inl e
           | Inr (newsh, h1) \<Rightarrow>
               if newsh = 0 then Inr (None, h1)
               else (case ni_string_ptr_free h1 (base s) of
                       Inl e \<Rightarrow> Inl e
                     | Inr h2 \<Rightarrow>
                         Inr (Some (s\<lparr>base := newsh, htype := ty, hlen := len,
                                      halloc := (if ty = NI_STRING_TYPE_5 then halloc s else len),
                                      buf := region h2 (newsh + hl) (len + 1)
                                               (take (len + 1) (buf s))\<rparr>), h2))))"
proof -
  let ?len = "hlen s"
  let ?t = "ni_string_req_type ?len"
  let ?oh = "ni_string_hdr_size (htype s)"
  let ?hl = "ni_string_hdr_size ?t"
  have t5: "htype s \<noteq> NI_STRING_TYPE_5" by (rule avail_nonzero_not5[OF av])
  have al: "ni_string_alloc s = halloc s"
    using t5 by (cases "htype s") (simp_all add: ni_string_alloc_def)
  have lb: "?len < length (buf s)" and bits: "?len < 2 ^ field_bits (htype s)"
    and blk: "?oh + length (buf s) < 2 ^ 64"
    using v by (simp_all add: valid_def ni_string_len_def)
  have oh3: "3 \<le> ?oh" using t5 by (cases "htype s") simp_all
  have l64: "?len < 2 ^ 64" using lb blk by simp
  have sz1: "size_add (size_add ?oh (ni_string_len s)) 1 = ?oh + ?len + 1"
  proof -
    have "?oh + ?len < 2 ^ 64" "?oh + ?len + 1 < 2 ^ 64" using lb blk by simp_all
    then show ?thesis by (simp add: size_add_def ni_string_len_def)
  qed
  have sz2: "\<not> (htype s = ?t \<or> type_code ?t > type_code NI_STRING_TYPE_8) \<Longrightarrow>
             size_add (size_add (ni_string_hdr_size (ni_string_req_type (ni_string_len s)))
               (ni_string_len s)) 1 = ?hl + ?len + 1"
  proof -
    assume "\<not> (htype s = ?t \<or> type_code ?t > type_code NI_STRING_TYPE_8)"
    then have "?hl \<le> 3" by (cases ?t) simp_all
    then have "?hl + ?len < 2 ^ 64" "?hl + ?len + 1 < 2 ^ 64" using lb blk oh3 by simp_all
    then show ?thesis by (simp add: size_add_def ni_string_len_def)
  qed
  have hd: "handle s - ?oh = base s" by (simp add: handle_def)
  have tb: "?len < 2 ^ field_bits ?t" by (rule req_type_bits[OF l64])
  show ?thesis
  proof (cases "htype s = ?t \<or> type_code ?t > type_code NI_STRING_TYPE_8")
    case True
    show ?thesis
      unfolding ni_string_remove_free_space_def Let_def hd sz1
      using True av t5 bits
      by (simp add: ni_string_len_def set_alloc_not5 del: type_code.simps
          split: sum.splits prod.splits)
  next
    case False
    then have ty: "?t = NI_STRING_TYPE_5 \<or> ?t = NI_STRING_TYPE_8" by (cases ?t) simp_all
    have oob: "\<not> (length (buf s) < ?len + 1 \<or> ?hl + ?len + 1 - ?hl < ?len + 1)"
      using lb by simp
    from ty show ?thesis
    proof
      assume e: "?t = NI_STRING_TYPE_5"
      show ?thesis
        unfolding ni_string_remove_free_space_def Let_def hd sz2[OF False]
        using False av oob tb e
        by (simp add: ni_string_len_def ni_string_set_alloc_def set_len_small
            del: type_code.simps split: sum.splits prod.splits)
    next
      assume e: "?t = NI_STRING_TYPE_8"
      show ?thesis
        unfolding ni_string_remove_free_space_def Let_def hd sz2[OF False]
        using False av oob tb e
        by (simp add: ni_string_len_def set_alloc_not5 set_len_small
            del: type_code.simps split: sum.splits prod.splits)
    qed
  qed
qed


lemma rfs_cases:
  assumes v: "valid s" and av: "ni_string_avail s \<noteq> 0"
    and r: "ni_string_remove_free_space h s = Inr (Some s', h')"
  shows "(keeps_header s \<and>
          ni_string_realloc h (base s) (ni_string_hdr_size (htype s) + hlen s + 1) =
            Inr (base s', h') \<and>
          s' = s\<lparr>base := base s', halloc := hlen s,
                  buf := region h' (base s' + ni_string_hdr_size (htype s)) (hlen s + 1) (buf s)\<rparr>)
       \<or>
         (\<not> keeps_header s \<and>
          (\<exists>h1. ni_string_malloc h
                   (ni_string_hdr_size (ni_string_req_type (hlen s)) + hlen s + 1) =
                   Inr (base s', h1) \<and>
                ni_string_ptr_free h1 (base s) = Inr h') \<and>
          s' = s\<lparr>base := base s', htype := ni_string_req_type (hlen s), hlen := hlen s,
                  halloc := (if ni_string_req_type (hlen s) = NI_STRING_TYPE_5
                             then halloc s else hlen s),
                  buf := region h' (base s' + ni_string_hdr_size (ni_string_req_type (hlen s)))
                           (hlen s + 1) (take (hlen s + 1) (buf s))\<rparr>)"
proof (cases "keeps_header s")
  case True
  then show ?thesis
    using r[unfolded rfs_unfold[OF v av] Let_def]
    by (auto simp: keeps_header_def ni_string_len_def simp del: type_code.simps
        split: sum.splits prod.splits if_splits)
next
  case False
  then show ?thesis
    using r[unfolded rfs_unfold[OF v av] Let_def]
    by (auto simp: keeps_header_def ni_string_len_def simp del: type_code.simps
        split: sum.splits prod.splits if_splits)
qed

lemma rfs_valid:
  assumes v: "valid s" and av: "ni_string_avail s \<noteq> 0"
    and r: "ni_string_remove_free_space h s = Inr (Some s', h')"
  shows "valid s'" and "content s' = content s" and "ni_string_len s' = ni_string_len s"
    and "ni_string_alloc s' = ni_string_len s"
    and "htype s' = (if keeps_header s then htype s else ni_string_req_type (ni_string_len s))"
proof -
  let ?len = "hlen s"
  let ?t = "ni_string_req_type ?len"
  have t5: "htype s \<noteq> NI_STRING_TYPE_5" by (rule avail_nonzero_not5[OF av])
  have lb: "?len < length (buf s)" and bits: "?len < 2 ^ field_bits (htype s)"
    and blk: "ni_string_hdr_size (htype s) + length (buf s) < 2 ^ 64"
    and z: "buf s ! ?len = 0"
    using v by (simp_all add: valid_def ni_string_len_def)
  have l64: "?len < 2 ^ 64" using lb blk by simp
  have tb: "?len < 2 ^ field_bits ?t" by (rule req_type_bits[OF l64])
  have oh3: "3 \<le> ni_string_hdr_size (htype s)" using t5 by (cases "htype s") simp_all
  from rfs_cases[OF v av r]
  have "valid s' \<and> content s' = content s \<and> ni_string_len s' = ni_string_len s \<and>
        ni_string_alloc s' = ni_string_len s \<and>
        htype s' = (if keeps_header s then htype s else ni_string_req_type (ni_string_len s))"
  proof
    assume a: "keeps_header s \<and>
          ni_string_realloc h (base s) (ni_string_hdr_size (htype s) + hlen s + 1) =
            Inr (base s', h') \<and>
          s' = s\<lparr>base := base s', halloc := hlen s,
                  buf := region h' (base s' + ni_string_hdr_size (htype s)) (hlen s + 1) (buf s)\<rparr>"
    then have s': "s' = s\<lparr>base := base s', halloc := hlen s,
                  buf := region h' (base s' + ni_string_hdr_size (htype s)) (hlen s + 1) (buf s)\<rparr>"
      and k: "keeps_header s" by simp_all
    have f: "htype s' = htype s" "hlen s' = hlen s" "halloc s' = hlen s"
      "buf s' = region h' (base s' + ni_string_hdr_size (htype s)) (hlen s + 1) (buf s)"
      by (subst s', simp)+
    have al: "ni_string_alloc s' = hlen s"
      using t5 f by (cases "htype s") (simp_all add: ni_string_alloc_def)
    have hs: "ni_string_hdr_size (htype s) + (hlen s + 1) < 2 ^ 64" using lb blk by simp
    have vv: "valid s'"
      unfolding valid_def al using f bits lb z hs t5
      by (simp add: ni_string_len_def length_region region_nth)
    have c: "content s' = content s"
      using f lb by (simp add: content_def ni_string_len_def take_region)
    show ?thesis using vv c al f k by (simp add: ni_string_len_def)
  next
    assume a: "\<not> keeps_header s \<and>
          (\<exists>h1. ni_string_malloc h
                   (ni_string_hdr_size (ni_string_req_type (hlen s)) + hlen s + 1) =
                   Inr (base s', h1) \<and>
                ni_string_ptr_free h1 (base s) = Inr h') \<and>
          s' = s\<lparr>base := base s', htype := ni_string_req_type (hlen s), hlen := hlen s,
                  halloc := (if ni_string_req_type (hlen s) = NI_STRING_TYPE_5
                             then halloc s else hlen s),
                  buf := region h' (base s' + ni_string_hdr_size (ni_string_req_type (hlen s)))
                           (hlen s + 1) (take (hlen s + 1) (buf s))\<rparr>"
    then have s': "s' = s\<lparr>base := base s', htype := ?t, hlen := hlen s,
                  halloc := (if ?t = NI_STRING_TYPE_5 then halloc s else hlen s),
                  buf := region h' (base s' + ni_string_hdr_size ?t)
                           (hlen s + 1) (take (hlen s + 1) (buf s))\<rparr>"
      and k: "\<not> keeps_header s" by simp_all
    have f: "htype s' = ?t" "hlen s' = hlen s"
      "halloc s' = (if ?t = NI_STRING_TYPE_5 then halloc s else hlen s)"
      "buf s' = region h' (base s' + ni_string_hdr_size ?t) (hlen s + 1)
                  (take (hlen s + 1) (buf s))"
      by (subst s', simp)+
    have al: "ni_string_alloc s' = hlen s"
      using f by (cases ?t) (simp_all add: ni_string_alloc_def)
    have "ni_string_hdr_size ?t \<le> 3"
      using k by (cases ?t) (simp_all add: keeps_header_def ni_string_len_def)
    then have hs: "ni_string_hdr_size ?t + (hlen s + 1) < 2 ^ 64" using lb blk oh3 by simp
    have r5: "?t = NI_STRING_TYPE_5 \<longrightarrow> hlen s \<le> 31"
      by (auto simp: ni_string_req_type_def split: if_splits)
    have vv: "valid s'"
      unfolding valid_def al using f tb lb z hs r5
      by (simp add: ni_string_len_def length_region region_nth)
    have c: "content s' = content s"
      using f lb by (simp add: content_def ni_string_len_def take_region)
    show ?thesis using vv c al f k by (simp add: ni_string_len_def)
  qed
  then show "valid s'" "content s' = content s" "ni_string_len s' = ni_string_len s"
    "ni_string_alloc s' = ni_string_len s"
    "htype s' = (if keeps_header s then htype s else ni_string_req_type (ni_string_len s))"
    by simp_all
qed

lemma rfs_ok:
  assumes hk: "heap_ok h" and ow: "base s \<in> set (live h)"
    and v: "valid s" and av: "ni_string_avail s \<noteq> 0"
  shows "\<exists>s' h'. ni_string_remove_free_space h s = Inr (Some s', h') \<and>
                  moved h (base s) h' (base s')"
proof (cases "htype s = ni_string_req_type (hlen s) \<or>
              type_code (ni_string_req_type (hlen s)) > type_code NI_STRING_TYPE_8")
  case True
  obtain p' h' where re: "ni_string_realloc h (base s) (ni_string_hdr_size (htype s) + hlen s + 1) =
      Inr (p', h')" and nz: "p' \<noteq> 0" and mv: "moved h (base s) h' p'"
    using realloc_ok[OF hk ow] by blast
  show ?thesis
    unfolding rfs_unfold[OF v av] Let_def using True re nz mv by (simp del: type_code.simps)
next
  case False
  have bp: "0 < brk h" using hk by (simp add: heap_ok_def)
  have ne: "base s \<noteq> brk h" using hk ow by (auto simp: heap_ok_def)
  show ?thesis
    unfolding rfs_unfold[OF v av] Let_def
    using False bp hk ow ne
    by (auto simp: malloc_ok[OF hk] ni_string_ptr_free_def ni_free_def moved_def heap_ok_def
        simp del: type_code.simps)
qed

text \<open>
  Claim C7, amended. For every valid buffer with spare capacity, a successful
  \<open>ni_string_remove_free_space\<close> returns a valid buffer with the same content
  and length whose capacity equals its length. The header type is recomputed
  from the length, but adopted only when it is type 5 or type 8: when the
  type required for the length is the old one or is above type 8, the old
  header is kept (so it need not be the minimal one). The block is resized
  with \<open>realloc\<close> exactly when the header type is kept, and copied into a
  fresh allocation, the old block being freed, exactly when it changes. The
  call succeeds when the allocator grants every request and the block is live.
\<close>

theorem remove_free_space_shrinks:
  assumes "valid s" and "ni_string_avail s \<noteq> 0"
  shows "(\<forall>s' h'. ni_string_remove_free_space h s = Inr (Some s', h') \<longrightarrow>
            content s' = content s \<and> ni_string_len s' = ni_string_len s \<and>
            ni_string_alloc s' = ni_string_len s' \<and> valid s' \<and>
            htype s' = (if keeps_header s then htype s
                        else ni_string_req_type (ni_string_len s)) \<and>
            (htype s' = htype s \<longrightarrow>
               ni_string_realloc h (base s)
                 (ni_string_hdr_size (htype s) + ni_string_len s + 1) = Inr (base s', h')) \<and>
            (htype s' \<noteq> htype s \<longrightarrow>
               (\<exists>h1. ni_string_malloc h
                        (ni_string_hdr_size (htype s') + ni_string_len s + 1) =
                        Inr (base s', h1) \<and>
                     ni_string_ptr_free h1 (base s) = Inr h'))) \<and>
         (heap_ok h \<and> base s \<in> set (live h) \<longrightarrow>
            (\<exists>s' h'. ni_string_remove_free_space h s = Inr (Some s', h')))"
proof (intro conjI allI impI)
  fix s' h'
  assume r: "ni_string_remove_free_space h s = Inr (Some s', h')"
  note vl = rfs_valid[OF assms r]
  show "content s' = content s" by (rule vl(2))
  show "ni_string_len s' = ni_string_len s" by (rule vl(3))
  show "ni_string_alloc s' = ni_string_len s'" using vl(3) vl(4) by simp
  show "valid s'" by (rule vl(1))
  show "htype s' = (if keeps_header s then htype s else ni_string_req_type (ni_string_len s))"
    by (rule vl(5))
  have ne: "\<not> keeps_header s \<Longrightarrow> htype s \<noteq> ni_string_req_type (ni_string_len s)"
    by (auto simp: keeps_header_def)
  show "ni_string_realloc h (base s) (ni_string_hdr_size (htype s) + ni_string_len s + 1) =
          Inr (base s', h')" if "htype s' = htype s"
    using rfs_cases[OF assms r] vl(5) that ne by (auto simp: ni_string_len_def)
  show "\<exists>h1. ni_string_malloc h (ni_string_hdr_size (htype s') + ni_string_len s + 1) =
               Inr (base s', h1) \<and> ni_string_ptr_free h1 (base s) = Inr h'"
    if "htype s' \<noteq> htype s"
  proof -
    have k: "\<not> keeps_header s" using vl(5) that by auto
    then have ty: "htype s' = ni_string_req_type (hlen s)"
      using vl(5) by (simp add: ni_string_len_def)
    show ?thesis
      using rfs_cases[OF assms r] k unfolding ty by (auto simp: ni_string_len_def)
  qed
next
  assume "heap_ok h \<and> base s \<in> set (live h)"
  then show "\<exists>s' h'. ni_string_remove_free_space h s = Inr (Some s', h')"
    using rfs_ok[OF _ _ assms, of h] by blast
qed

lemma valid_s_abc_spare: "valid s_abc_spare"
  by (simp add: valid_def s_abc_spare_def ni_string_len_def ni_string_alloc_def)

theorem remove_free_space_shrinks_witness:
  "valid s_abc_spare \<and> ni_string_avail s_abc_spare \<noteq> 0 \<and>
   (case ni_string_remove_free_space heap1 s_abc_spare of
      Inr (Some s', h') \<Rightarrow>
        htype s' = NI_STRING_TYPE_5 \<and> ni_string_alloc s' = 3 \<and> base s' = 24
    | _ \<Rightarrow> False)"
proof -
  have av: "ni_string_avail s_abc_spare \<noteq> 0"
    by (simp add: s_abc_spare_def ni_string_avail_def to_size_t_def)
  have hp: "heap_ok heap1 \<and> base s_abc_spare \<in> set (live heap1)"
    using heap_ok_heap1 by (simp add: heap1_def s_abc_spare_def)
  note t = remove_free_space_shrinks[OF valid_s_abc_spare av, of heap1]
  from t hp obtain s' h' where
    r: "ni_string_remove_free_space heap1 s_abc_spare = Inr (Some s', h')" by blast
  have k: "\<not> keeps_header s_abc_spare"
    by (simp add: keeps_header_def s_abc_spare_def ni_string_len_def ni_string_req_type_def)
  from t r k have ty: "htype s' = NI_STRING_TYPE_5" and al: "ni_string_alloc s' = 3"
    by (simp_all add: s_abc_spare_def ni_string_len_def ni_string_req_type_def)
  from t r ty obtain h1 where
    "ni_string_malloc heap1 (ni_string_hdr_size (htype s') + ni_string_len s_abc_spare + 1) =
       Inr (base s', h1)"
    by (auto simp: s_abc_spare_def)
  then have "base s' = 24"
    using malloc_ok[OF heap_ok_heap1] by (simp add: heap1_def)
  with r ty al valid_s_abc_spare av show ?thesis by simp
qed

text \<open>The claim as stated fails where the type required for the length is
  above type 8 and differs from the old one: a 300-byte string under a 32-bit
  header with capacity 70000 keeps the 32-bit header, though the 16-bit
  header is the minimal one for length 300.\<close>

lemma valid_s_wide: "valid s_wide"
  by (simp add: valid_def s_wide_def ni_string_len_def ni_string_alloc_def nth_append)

theorem remove_free_space_counterexample:
  "valid s_wide \<and> ni_string_avail s_wide \<noteq> 0 \<and>
   ni_string_req_type (ni_string_len s_wide) = NI_STRING_TYPE_16 \<and>
   (case ni_string_remove_free_space heap1 s_wide of
      Inr (Some s', h') \<Rightarrow> htype s' = NI_STRING_TYPE_32 \<and> ni_string_len s' = 300
    | _ \<Rightarrow> False)"
proof -
  have av: "ni_string_avail s_wide \<noteq> 0"
    by (simp add: s_wide_def ni_string_avail_def)
  have rq: "ni_string_req_type (ni_string_len s_wide) = NI_STRING_TYPE_16"
    by (simp add: s_wide_def ni_string_len_def ni_string_req_type_def)
  have k: "keeps_header s_wide" by (simp add: keeps_header_def rq)
  have ow: "base s_wide \<in> set (live heap1)" by (simp add: heap1_def s_wide_def)
  obtain s' h' where r: "ni_string_remove_free_space heap1 s_wide = Inr (Some s', h')"
    using rfs_ok[OF heap_ok_heap1 ow valid_s_wide av] by blast
  have "htype s' = NI_STRING_TYPE_32" "ni_string_len s' = 300"
    using rfs_valid(3,5)[OF valid_s_wide av r] k by (simp_all add: s_wide_def ni_string_len_def)
  with r valid_s_wide av rq show ?thesis by simp
qed

section \<open>Sub-ranges\<close>

lemma to_ssize_t_id: "- (2 ^ 63) \<le> x \<Longrightarrow> x < 2 ^ 63 \<Longrightarrow> to_ssize_t x = x"
  by (simp add: to_ssize_t_def)

lemma to_size_t_nat: "0 \<le> x \<Longrightarrow> x < 2 ^ 64 \<Longrightarrow> to_size_t x = nat x"
  by (simp add: to_size_t_def)

lemma valid_shrink:
  assumes v: "valid s" and n: "n \<le> ni_string_len s" and l: "length b = length (buf s)"
  shows "valid (s\<lparr>hlen := n, buf := b[n := 0]\<rparr>)"
  using assms
  by (cases "htype s") (auto simp: valid_def ni_string_len_def ni_string_alloc_def)

lemma shrink_steps:
  assumes v: "valid s" and n: "n \<le> ni_string_len s"
    and w: "w = Inr s \<or> (n + k \<le> ni_string_len s \<and> w = write_bytes s 0 (take n (drop k (buf s))))"
  shows "\<exists>b. (case w of Inl e \<Rightarrow> Inl e
               | Inr s1 \<Rightarrow> (case put_byte s1 n 0 of Inl e \<Rightarrow> Inl e
                            | Inr s2 \<Rightarrow> Inr (ni_string_set_len s2 n, h))) =
              Inr (s\<lparr>hlen := n, buf := b[n := 0]\<rparr>, h) \<and> length b = length (buf s) \<and>
              take n b = (if w = Inr s then take n (buf s) else take n (drop k (buf s)))"
proof -
  have lb: "ni_string_len s < length (buf s)" and bits: "ni_string_len s < 2 ^ field_bits (htype s)"
    using v by (simp_all add: valid_def)
  have nb: "n < 2 ^ field_bits (htype s)" using n bits by simp
  from w show ?thesis
  proof
    assume "w = Inr s"
    then show ?thesis
      using n lb nb
      by (intro exI[of _ "buf s"])
         (simp add: put_byte_def write_bytes_def upd_conv_take_nth_drop ni_string_set_len_def)
  next
    assume a: "n + k \<le> ni_string_len s \<and> w = write_bytes s 0 (take n (drop k (buf s)))"
    let ?b = "take n (drop k (buf s)) @ drop n (buf s)"
    have "n + k < length (buf s)" using a lb by linarith
    then have ln: "length (take n (drop k (buf s))) = n" by simp
    have w': "w = Inr (s\<lparr>buf := ?b\<rparr>)"
      using a lb ln by (simp add: write_bytes_def)
    have lb': "length ?b = length (buf s)" using ln n lb by simp
    have ne: "w \<noteq> Inr s \<or> take n (buf s) = take n (drop k (buf s))"
    proof (cases "w = Inr s")
      case True
      then have "s\<lparr>buf := ?b\<rparr> = s" using w' by simp
      then have "buf (s\<lparr>buf := ?b\<rparr>) = buf s" by simp
      then have "?b = buf s" by simp
      then have "take n ?b = take n (buf s)" by simp
      then show ?thesis using ln by simp
    qed simp
    show ?thesis
      using n lb nb lb' ln ne
      by (intro exI[of _ ?b])
         (auto simp: w' put_byte_def write_bytes_def upd_conv_take_nth_drop ni_string_set_len_def)
  qed
qed


lemma ssize_size_nonzero: "1 \<le> x \<Longrightarrow> x \<le> 2 ^ 63 \<Longrightarrow> to_size_t (to_ssize_t x) \<noteq> 0"
proof -
  assume a: "1 \<le> x" "x \<le> 2 ^ 63"
  show ?thesis
  proof (cases "x = 2 ^ 63")
    case True
    then show ?thesis by (simp add: to_ssize_t_def to_size_t_def)
  next
    case False
    then have "x < 2 ^ 63" using a by simp
    then show ?thesis using a by (simp add: to_ssize_t_def to_size_t_def)
  qed
qed

lemma take_drop_take: "n + k \<le> m \<Longrightarrow> take n (drop k (take m xs)) = take n (drop k xs)"
  by (simp add: drop_take min_def)

lemma range_eval:
  assumes v: "valid s" and l63: "ni_string_len s < 2 ^ 63"
    and sr: "- (2 ^ 63) \<le> start0" "start0 < 2 ^ 63"
    and er: "- (2 ^ 63) \<le> end0" "end0 < 2 ^ 63"
  shows "\<exists>b. ni_string_range h s start0 end0 =
               Inr (s\<lparr>hlen := length (range_result (content s) start0 end0),
                       buf := b[length (range_result (content s) start0 end0) := 0]\<rparr>, h) \<and>
             length b = length (buf s) \<and>
             take (length (range_result (content s) start0 end0)) b =
               range_result (content s) start0 end0"
proof -
  let ?len = "int (ni_string_len s)"
  define st where "st = (if start0 < 0 then max 0 (?len + start0) else start0)"
  define en where "en = (if end0 < 0 then max 0 (?len + end0) else end0)"
  let ?R = "range_result (content s) start0 end0"
  have lb: "ni_string_len s < length (buf s)" and z: "buf s ! ni_string_len s = 0"
    using v by (simp_all add: valid_def)
  have lc: "length (content s) = ni_string_len s" using lb by (simp add: content_def)
  have st0: "0 \<le> st" "st < 2 ^ 63" using sr l63 by (auto simp: st_def)
  have en0: "0 \<le> en" "en < 2 ^ 63" using er l63 by (auto simp: en_def)
  have s1: "range_index (ni_string_len s) start0 = st"
    using sr l63 by (auto simp: range_index_def Let_def to_ssize_t_id st_def)
  have e1: "range_index (ni_string_len s) end0 = en"
    using er l63 by (auto simp: range_index_def Let_def to_ssize_t_id en_def)
  have sl: "to_ssize_t ?len = ?len" using l63 by (simp add: to_ssize_t_id)
  show ?thesis
  proof (cases "ni_string_len s = 0")
    case True
    have R: "?R = []" using True lc by (simp add: range_result_def)
    have "(buf s)[0 := 0] = buf s"
      using True z list_update_id[of "buf s" 0] by simp
    moreover have "hlen s = 0" using True by (simp add: ni_string_len_def)
    ultimately have "s\<lparr>hlen := 0, buf := (buf s)[0 := 0]\<rparr> = s" by simp
    then show ?thesis
      using True by (intro exI[of _ "buf s"]) (simp add: ni_string_range_def R)
  next
    case ne: False
    define n where "n = (if st > en \<or> st \<ge> ?len then 0 else nat (min en (?len - 1) - st + 1))"
    define k where "k = nat st"
    have nle: "n \<le> ni_string_len s" using st0 by (auto simp: n_def)
    have nk: "n \<noteq> 0 \<Longrightarrow> n + k \<le> ni_string_len s" using st0 by (auto simp: n_def k_def)
    have R: "?R = (if n = 0 then [] else take n (drop k (content s)))"
      using ne lc
      by (auto simp: range_result_def n_def k_def Let_def st_def[symmetric] en_def[symmetric])
    have Rl: "length ?R = n" using nk lc by (auto simp: R)
    define w where "w = (if k \<noteq> 0 \<and> n \<noteq> 0 then write_bytes s 0 (take n (drop k (buf s))) else Inr s)"
    have unf: "ni_string_range h s start0 end0 =
       (case w of Inl e \<Rightarrow> Inl e
        | Inr s1 \<Rightarrow> (case put_byte s1 n 0 of Inl e \<Rightarrow> Inl e
                     | Inr s2 \<Rightarrow> Inr (ni_string_set_len s2 n, h)))"
    proof -
      consider (A) "st > en" | (B) "st \<le> en" "st \<ge> ?len"
        | (C) "st \<le> en" "st < ?len" "en \<ge> ?len" | (D) "st \<le> en" "st < ?len" "en < ?len"
        by linarith
      then show ?thesis
      proof cases
        case A
        then have n0: "n = 0" by (simp add: n_def)
        show ?thesis
          unfolding ni_string_range_def Let_def s1 e1 sl w_def n0 using ne A by simp
      next
        case B
        then have n0: "n = 0" by (simp add: n_def)
        have nz: "to_size_t (to_ssize_t (en - st + 1)) \<noteq> 0"
          using B st0 en0 by (intro ssize_size_nonzero) linarith+
        show ?thesis
          unfolding ni_string_range_def Let_def s1 e1 sl w_def n0 using ne B nz by simp
      next
        case C
        have nz: "to_size_t (to_ssize_t (en - st + 1)) \<noteq> 0"
          using C st0 en0 by (intro ssize_size_nonzero) linarith+
        have l1: "to_ssize_t (?len - 1) = ?len - 1" using l63 by (simp add: to_ssize_t_id)
        have nv: "n = nat (?len - st)" using C by (simp add: n_def min_def)
        have x: "to_size_t (to_ssize_t (?len - 1 - st + 1)) = n"
          using C st0 l63 by (simp add: nv to_ssize_t_id to_size_t_nat)
        have x': "to_size_t (to_ssize_t (?len - st)) = n"
          using C st0 l63 by (simp add: nv to_ssize_t_id to_size_t_nat)
        have npos: "n \<noteq> 0" using C nv by simp
        have ob: "\<not> length (buf s) < k + n" using nk[OF npos] lb by simp
        have kz: "st \<noteq> 0 \<longleftrightarrow> k \<noteq> 0" using st0 by (simp add: k_def)
        show ?thesis
          unfolding ni_string_range_def Let_def s1 e1 sl l1 w_def
          using ne C nz npos ob kz by (simp add: k_def[symmetric] x x' cong: sum.case_cong)
      next
        case D
        have nv: "n = nat (en - st + 1)" using D by (simp add: n_def min_def)
        have x: "to_size_t (to_ssize_t (en - st + 1)) = n"
          using D st0 en0 l63 by (simp add: nv to_ssize_t_id to_size_t_nat)
        have npos: "n \<noteq> 0" using D nv by simp
        have ob: "\<not> length (buf s) < k + n" using nk[OF npos] lb by simp
        have kz: "st \<noteq> 0 \<longleftrightarrow> k \<noteq> 0" using st0 by (simp add: k_def)
        show ?thesis
          unfolding ni_string_range_def Let_def s1 e1 sl w_def
          using ne D npos ob kz by (simp add: k_def[symmetric] x cong: sum.case_cong)
      qed
    qed
    have wc: "w = Inr s \<or> (n + k \<le> ni_string_len s \<and> w = write_bytes s 0 (take n (drop k (buf s))))"
      using nk by (auto simp: w_def)
    from shrink_steps[OF v nle wc, of h] obtain b where
      b: "(case w of Inl e \<Rightarrow> Inl e
           | Inr s1 \<Rightarrow> (case put_byte s1 n 0 of Inl e \<Rightarrow> Inl e
                        | Inr s2 \<Rightarrow> Inr (ni_string_set_len s2 n, h))) =
          Inr (s\<lparr>hlen := n, buf := b[n := 0]\<rparr>, h)"
      and bl: "length b = length (buf s)"
      and bt: "take n b = (if w = Inr s then take n (buf s) else take n (drop k (buf s)))"
      by blast
    have tk: "take n b = ?R"
    proof (cases "n = 0")
      case True
      then show ?thesis by (simp add: R)
    next
      case False
      have c: "take n (drop k (content s)) = take n (drop k (buf s))"
        unfolding content_def by (rule take_drop_take[OF nk[OF False]])
      show ?thesis
      proof (cases "k = 0")
        case True
        then have "w = Inr s" by (simp add: w_def)
        then show ?thesis using bt False True c by (simp add: R)
      next
        case k: False
        have "w = Inr s \<Longrightarrow> take n (buf s) = take n (drop k (buf s))"
        proof -
          assume ws: "w = Inr s"
          have "n + k < length (buf s)" using nk[OF False] lb by linarith
          then have ln: "length (take n (drop k (buf s))) = n" by simp
          from ws have "write_bytes s 0 (take n (drop k (buf s))) = Inr s"
            using k False by (simp add: w_def)
          then have "s\<lparr>buf := take n (drop k (buf s)) @ drop n (buf s)\<rparr> = s"
            using ln by (simp add: write_bytes_def split: if_splits)
          then have "buf (s\<lparr>buf := take n (drop k (buf s)) @ drop n (buf s)\<rparr>) = buf s" by simp
          then have "take n (take n (drop k (buf s)) @ drop n (buf s)) = take n (buf s)" by simp
          then show ?thesis using ln by simp
        qed
        then show ?thesis using bt False c by (auto simp: R)
      qed
    qed
    show ?thesis
      using unf b bl tk Rl by (intro exI[of _ b]) simp
  qed
qed

lemma length_range_result: "length (range_result bs a b) \<le> length bs"
proof -
  have *: "length (if c then [] else take n (drop k bs)) \<le> length bs" for c n k
    by (cases c) (auto simp: min_def)
  show ?thesis unfolding range_result_def Let_def by (rule *)
qed

lemma range_valid:
  assumes v: "valid s" and l63: "ni_string_len s < 2 ^ 63"
    and sr: "- (2 ^ 63) \<le> start0" "start0 < 2 ^ 63"
    and er: "- (2 ^ 63) \<le> end0" "end0 < 2 ^ 63"
  shows "\<exists>s'. ni_string_range h s start0 end0 = Inr (s', h) \<and>
              content s' = range_result (content s) start0 end0 \<and>
              ni_string_len s' = length (range_result (content s) start0 end0) \<and>
              valid s' \<and> base s' = base s \<and> htype s' = htype s \<and>
              length (buf s') = length (buf s)"
proof -
  let ?R = "range_result (content s) start0 end0"
  obtain b where r: "ni_string_range h s start0 end0 =
      Inr (s\<lparr>hlen := length ?R, buf := b[length ?R := 0]\<rparr>, h)"
    and bl: "length b = length (buf s)" and bt: "take (length ?R) b = ?R"
    using range_eval[OF assms, of h] by blast
  have lb: "ni_string_len s < length (buf s)" using v by (simp add: valid_def)
  have "length ?R \<le> length (content s)" by (rule length_range_result)
  then have le: "length ?R \<le> ni_string_len s" using lb by (simp add: content_def)
  have vv: "valid (s\<lparr>hlen := length ?R, buf := b[length ?R := 0]\<rparr>)"
    by (rule valid_shrink[OF v le bl])
  show ?thesis
    using r vv bt bl by (simp add: content_def ni_string_len_def)
qed

lemma valid_s_ciao: "valid s_ciao"
  by (simp add: valid_def s_ciao_def ni_string_len_def ni_string_alloc_def)

lemma range_ciao:
  assumes "- (2 ^ 63) \<le> a" "a < 2 ^ 63" "- (2 ^ 63) \<le> b" "b < 2 ^ 63"
  shows "result_content (returned (ni_string_range heap1 s_ciao a b)) =
         Some (range_result [0x63, 0x69, 0x61, 0x6F] a b)"
proof -
  have l: "ni_string_len s_ciao < 2 ^ 63" by (simp add: s_ciao_def ni_string_len_def)
  have c: "content s_ciao = [0x63, 0x69, 0x61, 0x6F]"
    by (simp add: content_def s_ciao_def ni_string_len_def)
  obtain s' where "ni_string_range heap1 s_ciao a b = Inr (s', heap1)"
    "content s' = range_result (content s_ciao) a b"
    using range_valid[OF valid_s_ciao l assms, of heap1] by blast
  then show ?thesis
    by (simp add: result_content_def result_string_def returned_def c)
qed

text \<open>
  Claim C6, amended. For every valid buffer shorter than \<open>2 ^ 63\<close> bytes and
  all \<open>ssize_t\<close> indices, \<open>ni_string_range\<close> returns in place (same block,
  same header type, heap untouched) with the content \<open>range_result\<close>: bounds
  are inclusive, a negative index counts from the end and becomes 0 when it
  still lies before the first byte (for \<open>end\<close> too), a \<open>start\<close> at or behind
  the length or behind \<open>end\<close> gives length 0, \<open>end\<close> is cut to the last byte,
  and the surviving bytes are moved to offset 0. On \<open>"ciao"\<close> the ranges
  \<open>(1, 1)\<close>, \<open>(-2, -1)\<close> and \<open>(2, 1)\<close> give \<open>"i"\<close>, \<open>"ao"\<close> and \<open>""\<close>.
\<close>

theorem range_in_place:
  "(valid s \<and> ni_string_len s < 2 ^ 63 \<and>
    - (2 ^ 63) \<le> start0 \<and> start0 < 2 ^ 63 \<and> - (2 ^ 63) \<le> end0 \<and> end0 < 2 ^ 63 \<longrightarrow>
      (\<exists>s'. ni_string_range h s start0 end0 = Inr (s', h) \<and>
            content s' = range_result (content s) start0 end0 \<and>
            ni_string_len s' = length (range_result (content s) start0 end0) \<and>
            valid s' \<and> base s' = base s \<and> htype s' = htype s)) \<and>
   result_content (returned (ni_string_range heap1 s_ciao 1 1)) = Some [0x69] \<and>
   result_content (returned (ni_string_range heap1 s_ciao (- 2) (- 1))) = Some [0x61, 0x6F] \<and>
   result_content (returned (ni_string_range heap1 s_ciao 2 1)) = Some []"
proof (intro conjI impI)
  assume a: "valid s \<and> ni_string_len s < 2 ^ 63 \<and>
    - (2 ^ 63) \<le> start0 \<and> start0 < 2 ^ 63 \<and> - (2 ^ 63) \<le> end0 \<and> end0 < 2 ^ 63"
  then show "\<exists>s'. ni_string_range h s start0 end0 = Inr (s', h) \<and>
            content s' = range_result (content s) start0 end0 \<and>
            ni_string_len s' = length (range_result (content s) start0 end0) \<and>
            valid s' \<and> base s' = base s \<and> htype s' = htype s"
    using range_valid[of s start0 end0 h] by blast
next
  show "result_content (returned (ni_string_range heap1 s_ciao 1 1)) = Some [0x69]"
    by (subst range_ciao) (simp_all add: range_result_def)
  show "result_content (returned (ni_string_range heap1 s_ciao (- 2) (- 1))) = Some [0x61, 0x6F]"
    by (subst range_ciao) (simp_all add: range_result_def)
  show "result_content (returned (ni_string_range heap1 s_ciao 2 1)) = Some []"
    by (subst range_ciao) (simp_all add: range_result_def)
qed

theorem range_in_place_witness:
  "valid s_ciao \<and> ni_string_len s_ciao < 2 ^ 63 \<and>
   (\<exists>s'. ni_string_range heap1 s_ciao 1 100 = Inr (s', heap1) \<and>
         content s' = [0x69, 0x61, 0x6F] \<and> ni_string_len s' = 3)"
proof -
  have l: "ni_string_len s_ciao < 2 ^ 63" by (simp add: s_ciao_def ni_string_len_def)
  have c: "content s_ciao = [0x63, 0x69, 0x61, 0x6F]"
    by (simp add: content_def s_ciao_def ni_string_len_def)
  have "\<exists>s'. ni_string_range heap1 s_ciao 1 100 = Inr (s', heap1) \<and>
            content s' = range_result (content s_ciao) 1 100 \<and>
            ni_string_len s' = length (range_result (content s_ciao) 1 100) \<and>
            valid s' \<and> base s' = base s_ciao \<and> htype s' = htype s_ciao"
    using range_in_place[of s_ciao 1 100 heap1] valid_s_ciao l by simp
  then show ?thesis
    using valid_s_ciao l by (auto simp: c range_result_def)
qed

text \<open>The claim as stated fails for an \<open>end\<close> before the first byte: clamped
  to \<open>-1\<close> it would give the empty string, but the code sets it to 0 and keeps
  the first byte.\<close>

theorem range_end_clamp_counterexample:
  "result_content (returned (ni_string_range heap1 s_ciao 0 (- 100))) = Some [0x63] \<and>
   spec_sub_range [0x63, 0x69, 0x61, 0x6F] 0 (- 100) = []"
proof
  show "result_content (returned (ni_string_range heap1 s_ciao 0 (- 100))) = Some [0x63]"
    by (subst range_ciao) (simp_all add: range_result_def)
  show "spec_sub_range [0x63, 0x69, 0x61, 0x6F] 0 (- 100) = []"
    by (simp add: spec_sub_range_def)
qed

section \<open>The shell-argument tokenizer on malformed input\<close>

lemma empty_heap0: "ni_string_empty heap0 = Inr (Some tok_empty, heap_tok)"
  apply (simp add: ni_string_empty_def ni_string_new_len_def Let_def ni_string_req_type_def
      size_add_def)
  apply (simp add: ni_string_malloc_def ni_malloc_def heap0_def heap_tok_def)
  apply (simp add: region_def put_byte_def write_bytes_def tok_empty_def)
  done

lemma cat_f: "ni_string_cat_len heap_tok tok_empty [0x66] = Inr (Some tok_f, heap_tok)"
  apply (simp add: ni_string_cat_len_def ni_string_make_room_for_def Let_def tok_empty_def
      ni_string_avail_def ni_string_len_def to_size_t_def size_add_def NI_STRING_MAX_PREALLOC_def)
  apply (simp add: ni_string_req_type_def handle_def)
  apply (simp add: heap_tok_def heap0_def ni_string_realloc_def ni_realloc_def)
  apply (simp add: ni_string_set_alloc_def region_def size_add_def NI_STRING_MAX_PREALLOC_def
     write_bytes_def put_byte_def ni_string_set_len_def tok_f_def)
  done

lemma cat_fo: "ni_string_cat_len heap_tok tok_f [0x6F] = Inr (Some tok_fo, heap_tok)"
  apply (simp add: ni_string_cat_len_def ni_string_make_room_for_def Let_def tok_f_def
      ni_string_avail_def ni_string_len_def to_size_t_def size_add_def NI_STRING_MAX_PREALLOC_def)
  apply (simp add: size_add_def write_bytes_def put_byte_def ni_string_set_len_def tok_fo_def)
  done

lemma cat_foo: "ni_string_cat_len heap_tok tok_fo [0x6F] = Inr (Some tok_foo, heap_tok)"
  apply (simp add: ni_string_cat_len_def ni_string_make_room_for_def Let_def tok_fo_def
      ni_string_avail_def ni_string_len_def to_size_t_def size_add_def NI_STRING_MAX_PREALLOC_def)
  apply (simp add: ni_string_req_type_def handle_def)
  apply (simp add: heap_tok_def heap0_def ni_string_realloc_def ni_realloc_def)
  apply (simp add: ni_string_set_alloc_def region_def size_add_def NI_STRING_MAX_PREALLOC_def
     write_bytes_def put_byte_def ni_string_set_len_def tok_foo_def)
  done

lemma tok_end: "sa_token heap_tok (Some tok_foo) True False [] = Inr (False, Some tok_foo, [], heap_tok)"
  by (subst sa_token.simps) (simp add: peek_def)

lemma tok3: "sa_token heap_tok (Some tok_fo) True False [0x6F] =
   Inr (False, Some tok_foo, [], heap_tok)"
  by (subst sa_token.simps) (simp add: peek_def sa_cat_def cat_foo tok_end del: sa_token.simps)

lemma tok2: "sa_token heap_tok (Some tok_f) True False [0x6F, 0x6F] =
   Inr (False, Some tok_foo, [], heap_tok)"
  by (subst sa_token.simps) (simp add: peek_def sa_cat_def cat_fo tok3 del: sa_token.simps)

lemma tok1: "sa_token heap_tok (Some tok_empty) True False [0x66, 0x6F, 0x6F] =
   Inr (False, Some tok_foo, [], heap_tok)"
  by (subst sa_token.simps) (simp add: peek_def sa_cat_def cat_f tok2 del: sa_token.simps)

lemma tok0: "sa_token heap_tok (Some tok_empty) False False [0x22, 0x66, 0x6F, 0x6F] =
   Inr (False, Some tok_foo, [], heap_tok)"
  by (subst sa_token.simps) (simp add: peek_def tok1 del: sa_token.simps)

lemma err_tok: "sa_err heap_tok 0 [] (Some tok_foo) = Inl Invalid_free"
  by (simp add: sa_err_def ni_string_ptr_free_def ni_free_def handle_def tok_foo_def heap_tok_def heap0_def)

text \<open>
  Claim C4. On a line with an unterminated quote the parse does not return
  \<open>NULL\<close> with a count of 0: at the \<open>err\<close> label the token under
  construction is passed to \<open>ni_string_ptr_free\<close> by its handle, which
  points behind the header and is not the start of a heap block. On the line
  \<open>"foo\<close> the call ends in that invalid free.
\<close>

theorem split_args_unterminated_quote:
  "ni_string_split_args heap0 [0x22, 0x66, 0x6F, 0x6F] = Inl Invalid_free"
  unfolding ni_string_split_args_def
  by (subst sa_main.simps) (simp add: cstr_def isspace_def peek_def empty_heap0 tok0 err_tok del: sa_token.simps sa_main.simps)

text \<open>The other half of the claim holds: a line that is empty or holds only
  white space gives a vector that is not \<open>NULL\<close> and a count of 0.\<close>

lemma split_args_blank:
  assumes g: "grant h 8" and b: "0 < brk h" and w: "\<forall>c \<in> set (cstr line). isspace c"
  shows "ni_string_split_args h line =
         Inr (Some (brk h, []), 0, h\<lparr>live := brk h # live h, brk := brk h + 8 + 1\<rparr>)"
proof -
  have "dropWhile (\<lambda>c. c \<noteq> 0 \<and> isspace c) (cstr line) = []"
    using w by (auto simp: cstr_def dest: set_takeWhileD)
  then show ?thesis
    using g b unfolding ni_string_split_args_def
    by (subst sa_main.simps)
       (simp add: peek_def ni_string_malloc_def ni_malloc_def del: sa_main.simps)
qed

section \<open>The mutating operations preserve validity\<close>

lemma valid_set:
  assumes "valid s" "n \<le> ni_string_alloc s" "length b = length (buf s)"
  shows "valid (s\<lparr>hlen := n, buf := b[n := 0]\<rparr>)"
  using assms
  by (cases "htype s") (auto simp: valid_def ni_string_len_def ni_string_alloc_def)

lemma alloc_bound: "valid s \<Longrightarrow> ni_string_alloc s < 2 ^ 64"
proof -
  assume v: "valid s"
  then have "ni_string_alloc s < length (buf s)"
    "ni_string_hdr_size (htype s) + length (buf s) < 2 ^ 64" by (simp_all add: valid_def)
  then show ?thesis by linarith
qed

lemma avail_pos_not5: "valid s \<Longrightarrow> ni_string_len s < ni_string_alloc s \<Longrightarrow> htype s \<noteq> NI_STRING_TYPE_5"
  by (auto simp: ni_string_alloc_def ni_string_len_def)

lemma avail_room: "valid s \<Longrightarrow> a \<le> ni_string_avail s \<Longrightarrow> ni_string_len s + a \<le> ni_string_alloc s"
proof -
  assume v: "valid s" and a: "a \<le> ni_string_avail s"
  have "ni_string_len s \<le> ni_string_alloc s" using v by (simp add: valid_def)
  then show ?thesis using a avail_valid[OF v] by linarith
qed

text \<open>The tail shared by the appending operations: store \<open>t\<close> at the end, set
  the length, write the terminator.\<close>

lemma append_tail:
  assumes v: "valid s" and fit: "ni_string_len s + length t \<le> ni_string_alloc s"
  shows "\<exists>s'. (case write_bytes s (ni_string_len s) t of
                 Inl e \<Rightarrow> Inl e
               | Inr s2 \<Rightarrow>
                   (case put_byte (ni_string_set_len s2 (size_add (ni_string_len s) (length t)))
                           (size_add (ni_string_len s) (length t)) 0 of
                      Inl e \<Rightarrow> Inl e
                    | Inr s3 \<Rightarrow> Inr (Some s3, h))) = Inr (Some s', h) \<and>
              valid s' \<and> content s' = content s @ t \<and>
              ni_string_len s' = ni_string_len s + length t \<and>
              base s' = base s \<and> htype s' = htype s \<and> halloc s' = halloc s \<and>
              length (buf s') = length (buf s)"
proof -
  let ?l = "ni_string_len s"
  let ?n = "?l + length t"
  let ?b = "take ?l (buf s) @ t @ drop ?n (buf s)"
  have ab: "ni_string_alloc s < length (buf s)" and bits: "ni_string_alloc s < 2 ^ field_bits (htype s)"
    using v by (simp_all add: valid_def)
  have a64: "ni_string_alloc s < 2 ^ 64" by (rule alloc_bound[OF v])
  have sa: "size_add ?l (length t) = ?n" using fit a64 by (simp add: size_add_def)
  have nb: "?n < length (buf s)" using fit ab by linarith
  have nbits: "?n < 2 ^ field_bits (htype s)" using fit bits by linarith
  have lb: "length ?b = length (buf s)" using nb by simp
  have vv: "valid (s\<lparr>hlen := ?n, buf := ?b[?n := 0]\<rparr>)"
    by (rule valid_set[OF v fit lb])
  have w: "write_bytes s ?l t = Inr (s\<lparr>buf := ?b\<rparr>)"
    using nb by (simp add: write_bytes_def)
  have p: "put_byte (ni_string_set_len (s\<lparr>buf := ?b\<rparr>) ?n) ?n 0 =
           Inr (s\<lparr>hlen := ?n, buf := ?b[?n := 0]\<rparr>)"
    using nb nbits lb by (simp add: put_byte_Inr set_len_small)
  have c: "take ?n (?b[?n := 0]) = content s @ t"
    using nb by (simp add: content_def)
  show ?thesis
    unfolding sa w using p vv c lb
    by (intro exI[of _ "s\<lparr>hlen := ?n, buf := ?b[?n := 0]\<rparr>"])
       (simp add: content_def ni_string_len_def)
qed

lemma cat_len_result:
  assumes v: "valid s" and fit: "fits (ni_string_len s) (length t)"
    and r: "ni_string_cat_len h s t = Inr (Some s', h')"
  shows "valid s'" and "content s' = content s @ t"
    and "ni_string_len s' = ni_string_len s + length t"
proof -
  from r obtain s1 where m: "ni_string_make_room_for h s (length t) = Inr (Some s1, h')"
    by (auto simp: ni_string_cat_len_def Let_def split: sum.splits prod.splits option.splits)
  note f = mrf_result[OF v fit m]
  have le: "ni_string_len s1 + length t \<le> ni_string_alloc s1"
    by (rule avail_room[OF f(1) f(4)])
  obtain s3 where e: "(case write_bytes s1 (ni_string_len s1) t of
                 Inl e \<Rightarrow> Inl e
               | Inr s2 \<Rightarrow>
                   (case put_byte (ni_string_set_len s2 (size_add (ni_string_len s1) (length t)))
                           (size_add (ni_string_len s1) (length t)) 0 of
                      Inl e \<Rightarrow> Inl e
                    | Inr s3 \<Rightarrow> Inr (Some s3, h'))) = Inr (Some s3, h')"
    and p: "valid s3" "content s3 = content s1 @ t" "ni_string_len s3 = ni_string_len s1 + length t"
    using append_tail[OF f(1) le, of h'] by blast
  have "s' = s3"
    using r e[unfolded f(3)] by (simp add: ni_string_cat_len_def Let_def m)
  then show "valid s'" "content s' = content s @ t"
    "ni_string_len s' = ni_string_len s + length t"
    using p f by simp_all
qed

lemma cat_len_ok:
  assumes hk: "heap_ok h" and ow: "base s \<in> set (live h)"
    and v: "valid s" and fit: "fits (ni_string_len s) (length t)"
  shows "\<exists>s' h'. ni_string_cat_len h s t = Inr (Some s', h') \<and>
                  moved h (base s) h' (base s') \<and> valid s' \<and> content s' = content s @ t"
proof -
  obtain s1 h' where m: "ni_string_make_room_for h s (length t) = Inr (Some s1, h')"
    and mv: "moved h (base s) h' (base s1)"
    using mrf_ok[OF hk ow v fit] by blast
  note f = mrf_result[OF v fit m]
  have le: "ni_string_len s1 + length t \<le> ni_string_alloc s1"
    by (rule avail_room[OF f(1) f(4)])
  obtain s3 where e: "(case write_bytes s1 (ni_string_len s1) t of
                 Inl e \<Rightarrow> Inl e
               | Inr s2 \<Rightarrow>
                   (case put_byte (ni_string_set_len s2 (size_add (ni_string_len s1) (length t)))
                           (size_add (ni_string_len s1) (length t)) 0 of
                      Inl e \<Rightarrow> Inl e
                    | Inr s3 \<Rightarrow> Inr (Some s3, h'))) = Inr (Some s3, h')"
    and p: "valid s3" "content s3 = content s1 @ t" "base s3 = base s1"
    using append_tail[OF f(1) le, of h'] by blast
  have "ni_string_cat_len h s t = Inr (Some s3, h')"
    using e[unfolded f(3)] by (simp add: ni_string_cat_len_def Let_def m)
  then show ?thesis using mv p f by auto
qed

lemma valid_header_ok: "valid s \<Longrightarrow> header_ok s"
  by (simp add: valid_def header_ok_def)

lemma valid_iff: "valid s \<longleftrightarrow> header_ok s \<and> buf s ! ni_string_len s = 0"
  by (auto simp: valid_def header_ok_def)

lemma incr_field:
  fixes a al incr :: int
  assumes a: "0 \<le> a" "a \<le> al" "al < 2 ^ b" and bc: "b \<le> c"
    and i: "(0 \<le> incr \<and> incr mod 2 ^ c \<le> al - a) \<or> (incr < 0 \<and> (- incr) mod 2 ^ c \<le> a)"
  shows "0 \<le> (a + incr) mod 2 ^ b \<and> (a + incr) mod 2 ^ b \<le> al"
proof -
  have dv: "(2::int) ^ b dvd 2 ^ c" using bc by (simp add: le_imp_power_dvd)
  from i show ?thesis
  proof
    assume p: "0 \<le> incr \<and> incr mod 2 ^ c \<le> al - a"
    define k where "k = incr mod 2 ^ c"
    have k: "0 \<le> k" "k \<le> al - a" using p by (simp_all add: k_def)
    have "k mod 2 ^ b = incr mod 2 ^ b" unfolding k_def using dv by (rule mod_mod_cancel)
    then have "(a + incr) mod 2 ^ b = (a + k) mod 2 ^ b"
      by (metis mod_add_right_eq)
    also have "\<dots> = a + k" using a k by simp
    finally show ?thesis using a k by simp
  next
    assume n: "incr < 0 \<and> (- incr) mod 2 ^ c \<le> a"
    define k where "k = (- incr) mod 2 ^ c"
    have k: "0 \<le> k" "k \<le> a" using n by (simp_all add: k_def)
    have "k mod 2 ^ b = (- incr) mod 2 ^ b" unfolding k_def using dv by (rule mod_mod_cancel)
    then have "(a - (- incr)) mod 2 ^ b = (a - k) mod 2 ^ b"
      by (metis mod_diff_right_eq)
    also have "\<dots> = a - k" using a k by simp
    finally show ?thesis using a k by simp
  qed
qed

lemma put_zero_valid:
  assumes k: "header_ok s" and n: "n \<le> ni_string_alloc s"
    and t: "htype s \<noteq> NI_STRING_TYPE_5"
    and p: "put_byte (s\<lparr>hlen := n\<rparr>) n 0 = Inr s'"
  shows "valid s'"
proof -
  have lb: "n < length (buf s)" using k n by (simp add: header_ok_def)
  have "s' = s\<lparr>hlen := n, buf := (buf s)[n := 0]\<rparr>"
    using p lb by (simp add: put_byte_def write_bytes_def upd_conv_take_nth_drop)
  then show ?thesis
    using k n t lb by (cases "htype s") (auto simp: valid_def header_ok_def ni_string_len_def ni_string_alloc_def)
qed

lemma incr_len_valid:
  assumes k: "header_ok s" and r: "ni_string_incr_len h s incr = Inr (s', h')"
  shows "valid s'"
proof (cases "htype s")
  case NI_STRING_TYPE_5
  define p where "p = to_size_t (int (hlen s) + incr)"
  have lb: "length (buf s) \<le> 32" using k NI_STRING_TYPE_5 by (simp add: header_ok_def)
  from r NI_STRING_TYPE_5 have pb: "put_byte (s\<lparr>hlen := nat ((int (hlen s) + incr) mod 2 ^ 5)\<rparr>) p 0 = Inr s'"
    by (auto simp: ni_string_incr_len_def Let_def p_def split: if_splits sum.splits)
  then have pl: "p < length (buf s)"
    by (auto simp: put_byte_def write_bytes_def split: if_splits)
  then have p32: "p < 32" using lb by linarith
  have "(int (hlen s) + incr) mod 2 ^ 64 mod 2 ^ 5 = (int (hlen s) + incr) mod 2 ^ 5"
    by (rule mod_mod_cancel) simp
  moreover have "(int (hlen s) + incr) mod 2 ^ 64 = int p" by (simp add: p_def to_size_t_def)
  ultimately have "nat ((int (hlen s) + incr) mod 2 ^ 5) = p" using p32 by simp
  then have "s' = s\<lparr>hlen := p, buf := (buf s)[p := 0]\<rparr>"
    using pb pl by (simp add: put_byte_def write_bytes_def upd_conv_take_nth_drop)
  then show ?thesis
    using k NI_STRING_TYPE_5 pl p32 by (auto simp: valid_def header_ok_def ni_string_len_def ni_string_alloc_def)
next
  case NI_STRING_TYPE_8
  note t = this
  have a: "0 \<le> int (hlen s)" "int (hlen s) \<le> int (halloc s)" "int (halloc s) < 2 ^ 8"
    using k t by (simp_all add: header_ok_def ni_string_len_def ni_string_alloc_def)
  from r t have c: "(0 \<le> incr \<and> incr \<le> int (halloc s) - int (hlen s)) \<or>
     (incr < 0 \<and> (- incr) mod 2 ^ 32 \<le> int (hlen s))"
    and pb: "put_byte (s\<lparr>hlen := nat ((int (hlen s) + incr) mod 2 ^ 8)\<rparr>) (nat ((int (hlen s) + incr) mod 2 ^ 8)) 0 = Inr s'"
    by (auto simp: ni_string_incr_len_def Let_def to_uint_def split: if_splits sum.splits)
  have c': "(0 \<le> incr \<and> incr mod 2 ^ 32 \<le> int (halloc s) - int (hlen s)) \<or>
     (incr < 0 \<and> (- incr) mod 2 ^ 32 \<le> int (hlen s))"
    using c zmod_le_nonneg_dividend[of incr "2 ^ 32"] by auto
  have "nat ((int (hlen s) + incr) mod 2 ^ 8) \<le> ni_string_alloc s"
    using incr_field[OF a _ c'] t by (simp add: ni_string_alloc_def)
  then show ?thesis using put_zero_valid[OF k _ _ pb] t by simp
next
  case NI_STRING_TYPE_16
  note t = this
  have a: "0 \<le> int (hlen s)" "int (hlen s) \<le> int (halloc s)" "int (halloc s) < 2 ^ 16"
    using k t by (simp_all add: header_ok_def ni_string_len_def ni_string_alloc_def)
  from r t have c: "(0 \<le> incr \<and> incr \<le> int (halloc s) - int (hlen s)) \<or>
     (incr < 0 \<and> (- incr) mod 2 ^ 32 \<le> int (hlen s))"
    and pb: "put_byte (s\<lparr>hlen := nat ((int (hlen s) + incr) mod 2 ^ 16)\<rparr>) (nat ((int (hlen s) + incr) mod 2 ^ 16)) 0 = Inr s'"
    by (auto simp: ni_string_incr_len_def Let_def to_uint_def split: if_splits sum.splits)
  have c': "(0 \<le> incr \<and> incr mod 2 ^ 32 \<le> int (halloc s) - int (hlen s)) \<or>
     (incr < 0 \<and> (- incr) mod 2 ^ 32 \<le> int (hlen s))"
    using c zmod_le_nonneg_dividend[of incr "2 ^ 32"] by auto
  have "nat ((int (hlen s) + incr) mod 2 ^ 16) \<le> ni_string_alloc s"
    using incr_field[OF a _ c'] t by (simp add: ni_string_alloc_def)
  then show ?thesis using put_zero_valid[OF k _ _ pb] t by simp
next
  case NI_STRING_TYPE_32
  note t = this
  have a: "0 \<le> int (hlen s)" "int (hlen s) \<le> int (halloc s)" "int (halloc s) < 2 ^ 32"
    using k t by (simp_all add: header_ok_def ni_string_len_def ni_string_alloc_def)
  have d: "(int (halloc s) - int (hlen s)) mod 2 ^ 32 = int (halloc s) - int (hlen s)"
    using a by simp
  from r t have c: "(0 \<le> incr \<and> incr mod 2 ^ 32 \<le> (int (halloc s) - int (hlen s)) mod 2 ^ 32) \<or>
     (incr < 0 \<and> (- incr) mod 2 ^ 32 \<le> int (hlen s))"
    and pb: "put_byte (s\<lparr>hlen := nat ((int (hlen s) + incr) mod 2 ^ 32)\<rparr>) (nat ((int (hlen s) + incr) mod 2 ^ 32)) 0 = Inr s'"
    by (auto simp: ni_string_incr_len_def Let_def to_uint_def split: if_splits sum.splits)
  have "nat ((int (hlen s) + incr) mod 2 ^ 32) \<le> ni_string_alloc s"
    using incr_field[OF a _ c[unfolded d]] t by (simp add: ni_string_alloc_def)
  then show ?thesis using put_zero_valid[OF k _ _ pb] t by simp
next
  case NI_STRING_TYPE_64
  note t = this
  have a: "0 \<le> int (hlen s)" "int (hlen s) \<le> int (halloc s)" "int (halloc s) < 2 ^ 64"
    using k t by (simp_all add: header_ok_def ni_string_len_def ni_string_alloc_def)
  have d: "(int (halloc s) - int (hlen s)) mod 2 ^ 64 = int (halloc s) - int (hlen s)"
    using a by simp
  from r t have c: "(0 \<le> incr \<and> incr mod 2 ^ 64 \<le> (int (halloc s) - int (hlen s)) mod 2 ^ 64) \<or>
     (incr < 0 \<and> (- incr) mod 2 ^ 64 \<le> int (hlen s))"
    and pb: "put_byte (s\<lparr>hlen := nat ((int (hlen s) + incr) mod 2 ^ 64)\<rparr>) (nat ((int (hlen s) + incr) mod 2 ^ 64)) 0 = Inr s'"
    by (auto simp: ni_string_incr_len_def Let_def split: if_splits sum.splits)
  have "nat ((int (hlen s) + incr) mod 2 ^ 64) \<le> ni_string_alloc s"
    using incr_field[OF a _ c[unfolded d]] t by (simp add: ni_string_alloc_def)
  then show ?thesis using put_zero_valid[OF k _ _ pb] t by simp
qed

lemma fits_mono: "fits a b \<Longrightarrow> a' + b' \<le> a + b \<Longrightarrow> fits a' b'"
  by (simp add: fits_def)

lemma cat_result:
  assumes "valid s" "fits (ni_string_len s) (length (cstr t))"
    "ni_string_cat h s t = Inr (Some s', h')"
  shows "valid s'" "content s' = content s @ cstr t"
  using cat_len_result[of s "cstr t" h s' h'] assms by (simp_all add: ni_string_cat_def)

text \<open>The tail shared by the copying operations: store \<open>t\<close> at the start,
  write the terminator, set the length.\<close>

lemma copy_tail:
  assumes v: "valid s" and fit: "length t \<le> ni_string_alloc s"
  shows "\<exists>s'. (case write_bytes s 0 t of
                 Inl e \<Rightarrow> Inl e
               | Inr s2 \<Rightarrow>
                   (case put_byte s2 (length t) 0 of
                      Inl e \<Rightarrow> Inl e
                    | Inr s3 \<Rightarrow> Inr (Some (ni_string_set_len s3 (length t)), h))) =
              Inr (Some s', h) \<and>
              valid s' \<and> content s' = t \<and> base s' = base s"
proof -
  let ?n = "length t"
  let ?b = "t @ drop ?n (buf s)"
  have ab: "ni_string_alloc s < length (buf s)" and bits: "ni_string_alloc s < 2 ^ field_bits (htype s)"
    using v by (simp_all add: valid_def)
  have nb: "?n < length (buf s)" using fit ab by linarith
  have nbits: "?n < 2 ^ field_bits (htype s)" using fit bits by linarith
  have lb: "length ?b = length (buf s)" using nb by simp
  have vv: "valid (s\<lparr>hlen := ?n, buf := ?b[?n := 0]\<rparr>)"
    by (rule valid_set[OF v fit lb])
  have w: "write_bytes s 0 t = Inr (s\<lparr>buf := ?b\<rparr>)"
    using nb by (simp add: write_bytes_def)
  have p: "put_byte (s\<lparr>buf := ?b\<rparr>) ?n 0 = Inr (s\<lparr>buf := ?b[?n := 0]\<rparr>)"
    using nb lb by (simp add: put_byte_Inr)
  have sl: "ni_string_set_len (s\<lparr>buf := ?b[?n := 0]\<rparr>) ?n = s\<lparr>hlen := ?n, buf := ?b[?n := 0]\<rparr>"
    using nbits by (simp add: ni_string_set_len_def)
  show ?thesis
    unfolding w using p vv sl
    by (intro exI[of _ "s\<lparr>hlen := ?n, buf := ?b[?n := 0]\<rparr>"])
       (simp add: content_def ni_string_len_def)
qed

lemma cpy_len_result:
  assumes v: "valid s" and fit: "fits (ni_string_len s) (length t - ni_string_len s)"
    and r: "ni_string_cpy_len h s t = Inr (Some s', h')"
  shows "valid s'" and "content s' = t"
proof -
  define m where "m = (if ni_string_alloc s < length t
               then ni_string_make_room_for h s (to_size_t (int (length t) - int (ni_string_len s)))
               else Inr (Some s, h))"
  from r obtain s1 where m: "m = Inr (Some s1, h')"
    unfolding ni_string_cpy_len_def Let_def m_def[symmetric]
    by (auto split: sum.splits prod.splits option.splits)
  have s1: "valid s1 \<and> length t \<le> ni_string_alloc s1"
  proof (cases "ni_string_alloc s < length t")
    case True
    have le: "ni_string_len s \<le> ni_string_alloc s" using v by (simp add: valid_def)
    have "length t - ni_string_len s < 2 ^ 64" using fit by (simp add: fits_def)
    then have e: "to_size_t (int (length t) - int (ni_string_len s)) = length t - ni_string_len s"
      using True le by (simp add: to_size_t_def of_nat_diff)
    from m True have mm: "ni_string_make_room_for h s (length t - ni_string_len s) = Inr (Some s1, h')"
      by (simp add: m_def e)
    note f = mrf_result[OF v fit mm]
    have "ni_string_len s1 + (length t - ni_string_len s) \<le> ni_string_alloc s1"
      by (rule avail_room[OF f(1) f(4)])
    then show ?thesis using f True le by simp
  next
    case False
    then show ?thesis using m v by (simp add: m_def)
  qed
  obtain s3 where e: "(case write_bytes s1 0 t of
                 Inl e \<Rightarrow> Inl e
               | Inr s2 \<Rightarrow>
                   (case put_byte s2 (length t) 0 of
                      Inl e \<Rightarrow> Inl e
                    | Inr s3 \<Rightarrow> Inr (Some (ni_string_set_len s3 (length t)), h'))) =
              Inr (Some s3, h')" and p: "valid s3" "content s3 = t"
    using copy_tail[of s1 t h'] s1 by blast
  have "s' = s3"
    using r e unfolding ni_string_cpy_len_def Let_def m_def[symmetric] m by simp
  then show "valid s'" "content s' = t" using p by simp_all
qed

lemma cpy_result:
  assumes "valid s" "fits (ni_string_len s) (length (cstr t) - ni_string_len s)"
    "ni_string_cpy h s t = Inr (Some s', h')"
  shows "valid s'" "content s' = cstr t"
  using cpy_len_result[of s "cstr t" h s' h'] assms by (simp_all add: ni_string_cpy_def)

lemma grow_zero_result:
  assumes v: "valid s" and fit: "fits (ni_string_len s) (n - ni_string_len s)"
    and r: "ni_string_grow_zero h s n = Inr (Some s', h')"
  shows "valid s'" and "content s' = content s @ replicate (n - ni_string_len s) 0"
proof -
  have "valid s' \<and> content s' = content s @ replicate (n - ni_string_len s) 0"
  proof (cases "n \<le> ni_string_len s")
    case True
    then have "s' = s" using r by (simp add: ni_string_grow_zero_def)
    then show ?thesis using v True by simp
  next
    case False
    let ?l = "ni_string_len s"
    let ?d = "n - ?l"
    from r False obtain s1 where m: "ni_string_make_room_for h s ?d = Inr (Some s1, h')"
      by (auto simp: ni_string_grow_zero_def Let_def split: sum.splits prod.splits option.splits)
    note f = mrf_result[OF v fit m]
    have le: "ni_string_len s1 + ?d \<le> ni_string_alloc s1"
      by (rule avail_room[OF f(1) f(4)])
    then have na: "n \<le> ni_string_alloc s1" using f False by simp
    have ab: "ni_string_alloc s1 < length (buf s1)"
      and bits: "ni_string_alloc s1 < 2 ^ field_bits (htype s1)"
      using f(1) by (simp_all add: valid_def)
    have sa: "size_add ?d (Suc 0) = ?d + 1" using fit by (simp add: size_add_def fits_def)
    let ?b = "take ?l (buf s1) @ replicate (?d + 1) 0 @ drop (n + 1) (buf s1)"
    have nb: "n < length (buf s1)" using na ab by linarith
    have w: "write_bytes s1 ?l (replicate (size_add ?d 1) 0) = Inr (s1\<lparr>buf := ?b\<rparr>)"
      using nb False by (simp add: write_bytes_def sa)
    have nbits: "n < 2 ^ field_bits (htype s1)" using na bits by linarith
    have res: "s' = s1\<lparr>hlen := n, buf := ?b\<rparr>"
      using r False m w nbits by (auto simp add: ni_string_grow_zero_def ni_string_set_len_def Let_def)
    have lb: "length ?b = length (buf s1)" using nb False by simp
    have l1: "length (take ?l (buf s1)) = ?l" using nb False by simp
    have "?b ! n = (replicate (?d + 1) (0::byte) @ drop (n + 1) (buf s1)) ! ?d"
      using False by (simp only: nth_append l1) simp
    also have "\<dots> = replicate (?d + 1) (0::byte) ! ?d"
      by (rule nth_append_left) simp
    also have "\<dots> = 0" by (rule nth_replicate) simp
    finally have z: "?b ! n = 0" .
    have "?b[n := 0] = ?b" by (metis z list_update_id)
    then have res': "s' = s1\<lparr>hlen := n, buf := ?b[n := 0]\<rparr>" using res by simp
    have vs: "valid s'" unfolding res' by (rule valid_set[OF f(1) na lb])
    have t1: "take ?d (replicate (?d + 1) (0::byte) @ drop (n + 1) (buf s1)) = replicate ?d 0"
      by (simp del: replicate.simps add: min_def)
    have t2: "n - length (take ?l (buf s1)) = ?d" "take n (take ?l (buf s1)) = take ?l (buf s1)"
      using False l1 by simp_all
    have tk: "take n ?b = take ?l (buf s1) @ replicate ?d 0"
      by (subst take_append) (simp only: t2 t1)
    have c1: "content s' = take n ?b" unfolding res by (simp add: content_def ni_string_len_def)
    have c2: "take ?l (buf s1) = content s" using f(2,3) by (simp add: content_def)
    have "content s' = content s @ replicate (n - ni_string_len s) 0"
      unfolding c1 tk by (simp only: c2)
    then show ?thesis using vs by simp
  qed
  then show "valid s'" and "content s' = content s @ replicate (n - ni_string_len s) 0"
    by simp_all
qed

lemma clear_valid:
  assumes v: "valid s" and r: "ni_string_clear h s = Inr (s', h')"
  shows "valid s'"
proof -
  have "ni_string_alloc s < length (buf s)" using v by (simp add: valid_def)
  then have lb: "0 < length (buf s)" by linarith
  have "s' = s\<lparr>hlen := 0, buf := (buf s)[0 := 0]\<rparr>"
    using r lb
    by (cases "buf s")
       (simp_all add: ni_string_clear_def ni_string_set_len_def put_byte_def write_bytes_def)
  then show ?thesis using valid_shrink[OF v, of 0 "buf s"] by simp
qed

lemma trim_sp_bounds:
  "sp0 \<le> e + 1 \<Longrightarrow> sp0 \<le> trim_sp cset b e sp0 \<and> trim_sp cset b e sp0 \<le> e + 1"
proof (induction cset b e sp0 rule: trim_sp.induct)
  case (1 cset b e sp)
  show ?case
  proof (cases "sp \<le> e \<and> strchr_hit cset (b ! nat sp)")
    case True
    then have "sp + 1 \<le> trim_sp cset b e (sp + 1) \<and> trim_sp cset b e (sp + 1) \<le> e + 1"
      using "1.IH" by simp
    then show ?thesis using True by (subst (1 2) trim_sp.simps) simp
  next
    case False
    then show ?thesis using "1.prems" by (subst (1 2) trim_sp.simps) auto
  qed
qed

lemma trim_ep_bounds: "trim_ep cset b sp ep0 \<le> ep0"
proof (induction cset b sp ep0 rule: trim_ep.induct)
  case (1 cset b sp ep)
  show ?case
  proof (cases "ep > sp \<and> strchr_hit cset (b ! nat ep)")
    case True
    then have "trim_ep cset b sp (ep - 1) \<le> ep - 1" using "1.IH" by simp
    then show ?thesis using True by (subst trim_ep.simps) simp
  next
    case False
    then show ?thesis by (subst trim_ep.simps) auto
  qed
qed

lemma trim_result:
  assumes v: "valid s" and r: "ni_string_trim h s cset = Inr (Some s', h')"
  shows "valid s'"
proof -
  let ?e = "int (ni_string_len s) - 1"
  define sp where "sp = trim_sp cset (buf s) ?e 0"
  define ep where "ep = trim_ep cset (buf s) sp ?e"
  define n where "n = (if sp > ep then 0 else nat (ep - sp + 1))"
  define w where "w = (if sp \<noteq> 0 then write_bytes s 0 (take n (drop (nat sp) (buf s))) else Inr s)"
  have lb: "ni_string_len s < length (buf s)" using v by (simp add: valid_def)
  have sb: "0 \<le> sp" "sp \<le> ?e + 1" using trim_sp_bounds[of 0 ?e cset "buf s"] by (simp_all add: sp_def)
  have eb: "ep \<le> ?e" unfolding ep_def by (rule trim_ep_bounds)
  have nk: "n + nat sp \<le> ni_string_len s" using sb eb by (auto simp: n_def)
  then have nl: "n \<le> ni_string_len s" by linarith
  have ww: "w = Inr s \<or> (n + nat sp \<le> ni_string_len s \<and> w = write_bytes s 0 (take n (drop (nat sp) (buf s))))"
    using nk by (auto simp: w_def)
  obtain b where e: "(case w of Inl e \<Rightarrow> Inl e
               | Inr s1 \<Rightarrow> (case put_byte s1 n 0 of Inl e \<Rightarrow> Inl e
                            | Inr s2 \<Rightarrow> Inr (ni_string_set_len s2 n, h))) =
              Inr (s\<lparr>hlen := n, buf := b[n := 0]\<rparr>, h)" and bl: "length b = length (buf s)"
    using shrink_steps[OF v nl ww, of h] by blast
  have "ni_string_trim h s cset = returned (case w of Inl e \<Rightarrow> Inl e
               | Inr s1 \<Rightarrow> (case put_byte s1 n 0 of Inl e \<Rightarrow> Inl e
                            | Inr s2 \<Rightarrow> Inr (ni_string_set_len s2 n, h)))"
    using lb unfolding ni_string_trim_def Let_def sp_def[symmetric] ep_def[symmetric]
      n_def[symmetric] w_def[symmetric] returned_def
    by (simp split: sum.splits)
  then have "s' = s\<lparr>hlen := n, buf := b[n := 0]\<rparr>"
    using r e by (simp add: returned_def)
  then show ?thesis using valid_shrink[OF v nl bl] by simp
qed

lemma range_index_nonneg: "0 \<le> i \<or> i < 0 \<Longrightarrow> 0 \<le> range_index len i"
  by (simp add: range_index_def Let_def)

lemma range_big:
  assumes v: "valid s" and big: "2 ^ 63 \<le> ni_string_len s"
  shows "ni_string_range h s start0 end0 = Inr (s\<lparr>hlen := 0, buf := (buf s)[0 := 0]\<rparr>, h)"
proof -
  let ?len = "ni_string_len s"
  define st where "st = range_index ?len start0"
  define en where "en = range_index ?len end0"
  have lb: "?len < length (buf s)" "ni_string_hdr_size (htype s) + length (buf s) < 2 ^ 64"
    using v by (simp_all add: valid_def)
  then have l64: "?len < 2 ^ 64" by linarith
  have "(int ?len + 2 ^ 63) mod 2 ^ 64 = ((int ?len - 2 ^ 63) + 2 ^ 64) mod 2 ^ 64"
    by (simp add: add.commute)
  also have "\<dots> = (int ?len - 2 ^ 63) mod 2 ^ 64"
    by (rule mod_add_self2)
  also have "\<dots> = int ?len - 2 ^ 63"
    using big l64 by simp
  finally have neg: "to_ssize_t (int ?len) < 0"
    using l64 by (simp add: to_ssize_t_def)
  have st0: "0 \<le> st" unfolding st_def by (rule range_index_nonneg) auto
  then have ge: "to_ssize_t (int ?len) \<le> st" using neg by linarith
  have ne: "?len \<noteq> 0" using big by auto
  have lb0: "0 < length (buf s)" using lb by linarith
  show ?thesis
    using ne ge lb0
    unfolding ni_string_range_def Let_def st_def[symmetric] en_def[symmetric]
    by (cases "buf s")
       (simp_all add: put_byte_def write_bytes_def ni_string_set_len_def)
qed

lemma range_result_valid:
  assumes v: "valid s" and sr: "- (2 ^ 63) \<le> start0" "start0 < 2 ^ 63"
    and er: "- (2 ^ 63) \<le> end0" "end0 < 2 ^ 63"
    and r: "ni_string_range h s start0 end0 = Inr (s', h')"
  shows "valid s'"
proof (cases "ni_string_len s < 2 ^ 63")
  case True
  then show ?thesis using range_valid[OF v True sr er, of h] r by auto
next
  case False
  then have "s' = s\<lparr>hlen := 0, buf := (buf s)[0 := 0]\<rparr>"
    using range_big[OF v, of h start0 end0] r by simp
  then show ?thesis using valid_shrink[OF v, of 0 "buf s"] by simp
qed

section \<open>The invariant under the mutating operations\<close>

lemma mrf_empty_wrap:
  "ni_string_make_room_for heap_tok tok_empty 18446744073709551615 =
   Inr (Some \<lparr>base = 21, htype = NI_STRING_TYPE_32, hlen = 0, halloc = 1048575,
              buf = region (heap0\<lparr>live := [21], brk := 1048607\<rparr>) 30 1048576 [0]\<rparr>,
        heap0\<lparr>live := [21], brk := 1048607\<rparr>)"
  apply (simp add: ni_string_make_room_for_def Let_def tok_empty_def ni_string_avail_def
      ni_string_len_def to_size_t_def size_add_def NI_STRING_MAX_PREALLOC_def)
  apply (simp add: ni_string_req_type_def handle_def)
  apply (simp add: heap_tok_def heap0_def ni_string_malloc_def ni_malloc_def
      ni_string_ptr_free_def ni_free_def)
  apply (simp add: ni_string_req_type_def handle_def)
  apply (simp add: ni_string_set_alloc_def ni_string_set_len_def size_add_def
      NI_STRING_MAX_PREALLOC_def)
  done

text \<open>
  Claim C1. The invariant does not survive every successful call. On the
  empty string of \<open>ni_string_empty\<close>, \<open>ni_string_grow_zero\<close> with the length
  \<open>2 ^ 64 - 1\<close> returns a handle, not \<open>NULL\<close>: the capacity computed for the
  growth wraps around to \<open>2 ^ 20 - 1\<close>, the count of bytes to clear wraps to
  0, and the length \<open>2 ^ 64 - 1\<close> is cut to the 32 bits of the header. The
  string returned has length \<open>2 ^ 32 - 1\<close> and capacity \<open>2 ^ 20 - 1\<close> in a
  block of \<open>2 ^ 20\<close> data bytes, so the length is above the capacity and the
  byte at offset length is outside the block.
\<close>

theorem grow_zero_wraps:
  "ni_string_grow_zero heap_tok tok_empty 18446744073709551615 =
   Inr (Some \<lparr>base = 21, htype = NI_STRING_TYPE_32, hlen = 4294967295, halloc = 1048575,
              buf = region (heap0\<lparr>live := [21], brk := 1048607\<rparr>) 30 1048576 [0]\<rparr>,
        heap0\<lparr>live := [21], brk := 1048607\<rparr>)"
proof -
  have l: "ni_string_len tok_empty = 0" by (simp add: tok_empty_def ni_string_len_def)
  show ?thesis
    unfolding ni_string_grow_zero_def Let_def l
    apply (simp add: mrf_empty_wrap)
    apply (simp add: size_add_def write_bytes_def ni_string_set_len_def length_region)
    done
qed

text \<open>The string the call was given is valid; in the one it returns the
  length exceeds the capacity and the size of the block.\<close>

lemma valid_tok_empty: "valid tok_empty"
  by (simp add: valid_def tok_empty_def ni_string_len_def ni_string_alloc_def)

lemma grow_zero_wraps_broken:
  "result_string (ni_string_grow_zero heap_tok tok_empty 18446744073709551615) = Some s' \<Longrightarrow>
   ni_string_len s' = 4294967295 \<and> ni_string_alloc s' = 1048575 \<and>
   length (buf s') = 1048576 \<and> \<not> valid s'"
  by (auto simp: grow_zero_wraps result_string_def ni_string_len_def ni_string_alloc_def
      length_region valid_def)


section \<open>The format appender\<close>

lemma body_eq:
  "(if c = 0x25 then
            (case f of
               [] \<Rightarrow> Inl Out_of_bounds
             | next # f' \<Rightarrow>
                 if next = 0x73 \<or> next = 0x53 then
                   (case ap of
                      [] \<Rightarrow> Inl Bad_vararg
                    | a # ap' \<Rightarrow>
                        (case (case a of
                                 Arg_str bs \<Rightarrow>
                                   if next = 0x73 then Inr (cstr bs, None) else Inl Bad_vararg
                               | Arg_ni_string t \<Rightarrow> fmt_read h1 s1 t (next = 0x73)
                               | _ \<Rightarrow> Inl Bad_vararg) of
                           Inl e \<Rightarrow> Inl e
                         | Inr (str, blk) \<Rightarrow>
                             (case fmt_put h1 s1 i str blk of
                                Inl e \<Rightarrow> Inl e
                              | Inr (s2, i2, h2) \<Rightarrow> cat_fmt_loop h2 s2 i2 f' ap')))
                 else if next = 0x69 \<or> next = 0x49 then
                   (case ap of
                      [] \<Rightarrow> Inl Bad_vararg
                    | a # ap' \<Rightarrow>
                        (case (case a of
                                 Arg_int w \<Rightarrow> if next = 0x69 then Inr (sint w) else Inl Bad_vararg
                               | Arg_longlong w \<Rightarrow>
                                   if next = 0x49 then Inr (sint w) else Inl Bad_vararg
                               | _ \<Rightarrow> Inl Bad_vararg) of
                           Inl e \<Rightarrow> Inl e
                         | Inr num \<Rightarrow>
                             (case fmt_put h1 s1 i (ni_string_ll2str num) None of
                                Inl e \<Rightarrow> Inl e
                              | Inr (s2, i2, h2) \<Rightarrow> cat_fmt_loop h2 s2 i2 f' ap')))
                 else if next = 0x75 \<or> next = 0x55 then
                   (case ap of
                      [] \<Rightarrow> Inl Bad_vararg
                    | a # ap' \<Rightarrow>
                        (case (case a of
                                 Arg_uint w \<Rightarrow> if next = 0x75 then Inr (unat w) else Inl Bad_vararg
                               | Arg_ulonglong w \<Rightarrow>
                                   if next = 0x55 then Inr (unat w) else Inl Bad_vararg
                               | _ \<Rightarrow> Inl Bad_vararg) of
                           Inl e \<Rightarrow> Inl e
                         | Inr unum \<Rightarrow>
                             (case fmt_put h1 s1 i (ni_string_ull2str unum) None of
                                Inl e \<Rightarrow> Inl e
                              | Inr (s2, i2, h2) \<Rightarrow> cat_fmt_loop h2 s2 i2 f' ap')))
                 else
                   (case fmt_putc h1 s1 i next of
                      Inl e \<Rightarrow> Inl e
                    | Inr (s2, i2, h2) \<Rightarrow> cat_fmt_loop h2 s2 i2 f' ap))
          else
            (case fmt_putc h1 s1 i c of
               Inl e \<Rightarrow> Inl e
             | Inr (s2, i2, h2) \<Rightarrow> cat_fmt_loop h2 s2 i2 f ap)) =
   (case fmt_piece h1 s1 (c # f) ap of
             Inl e \<Rightarrow> Inl e
           | Inr p \<Rightarrow>
               (case fmt_app h1 s1 i p of
                  Inl e \<Rightarrow> Inl e
                | Inr (s2, i2, h2) \<Rightarrow>
                    cat_fmt_loop h2 s2 i2 (fst (fmt_rest (c # f) ap)) (snd (fmt_rest (c # f) ap))))"
proof (cases "c = 0x25")
  case False
  then show ?thesis
    by (simp add: fmt_piece_def fmt_rest_def fmt_app_def split: sum.splits prod.splits)
next
  case c: True
  show ?thesis
  proof (cases f)
    case Nil
    then show ?thesis using c by (simp add: fmt_piece_def)
  next
    case (Cons n f2)
    show ?thesis
    proof (cases ap)
      case Nil
      then show ?thesis
        using c Cons
        by (simp add: fmt_piece_def fmt_rest_def fmt_app_def split: sum.splits prod.splits)
    next
      case ap: (Cons a ap')
      show ?thesis
        using c Cons ap
        by (cases a)
           (simp_all add: fmt_piece_def fmt_rest_def fmt_app_def split: sum.splits prod.splits)
    qed
  qed
qed

lemma loop_unfold:
  "c \<noteq> 0 \<Longrightarrow>
   cat_fmt_loop h s i (c # f) ap =
     (case ensure_one h s of
        Inl e \<Rightarrow> Inl e
      | Inr (None, h1) \<Rightarrow> Inl Null_deref
      | Inr (Some s1, h1) \<Rightarrow>
          (case fmt_piece h1 s1 (c # f) ap of
             Inl e \<Rightarrow> Inl e
           | Inr p \<Rightarrow>
               (case fmt_app h1 s1 i p of
                  Inl e \<Rightarrow> Inl e
                | Inr (s2, i2, h2) \<Rightarrow>
                    cat_fmt_loop h2 s2 i2 (fst (fmt_rest (c # f) ap)) (snd (fmt_rest (c # f) ap)))))"
  by (simp only: cat_fmt_loop.simps if_False ensure_one_def[symmetric] body_eq)

lemma ull_decimal: "ni_string_ull2str v = decimal v"
  unfolding ni_string_ull2str_def
proof (induction v rule: ull_digits.induct)
  case (1 v)
  show ?case
  proof (cases "v div 10 = 0")
    case True
    then have "v < 10" by (simp add: div_eq_0_iff)
    then show ?thesis using True by (subst ull_digits.simps, subst decimal.simps) simp
  next
    case False
    then have "\<not> v < 10" by (simp add: div_eq_0_iff)
    then show ?thesis
      using False "1.IH" by (subst ull_digits.simps, subst decimal.simps) simp
  qed
qed

lemma ll_decimal:
  assumes "- (2 ^ 63) \<le> x" "x < 2 ^ 63"
  shows "ni_string_ll2str x = decimal_int x"
proof (cases "x < 0")
  case True
  have "nat ((to_ssize_t (- x)) mod 2 ^ 64) = nat (- x)"
  proof (cases "x = - (2 ^ 63)")
    case True
    then show ?thesis by (simp add: to_ssize_t_def)
  next
    case False
    then have "- x < 2 ^ 63" "0 < - x" using assms True by simp_all
    then show ?thesis by (simp add: to_ssize_t_def)
  qed
  then show ?thesis
    using True ull_decimal[of "nat (- x)"]
    by (simp add: ni_string_ll2str_def decimal_int_def ni_string_ull2str_def Let_def)
next
  case False
  then have "nat (x mod 2 ^ 64) = nat x" using assms by simp
  then show ?thesis
    using False ull_decimal[of "nat x"]
    by (simp add: ni_string_ll2str_def decimal_int_def ni_string_ull2str_def Let_def)
qed

lemma ll_decimal_64: "ni_string_ll2str (sint (w :: 64 word)) = decimal_int (sint w)"
  using sint_ge[of w] sint_lt[of w] by (intro ll_decimal) simp_all

lemma ll_decimal_32: "ni_string_ll2str (sint (w :: 32 word)) = decimal_int (sint w)"
proof -
  have "- (2 ^ 31) \<le> sint w" "sint w < 2 ^ 31"
    using sint_ge[of w] sint_lt[of w] by simp_all
  then show ?thesis by (intro ll_decimal) simp_all
qed

lemma moved_heap_ok: "moved h p h' p' \<Longrightarrow> heap_ok h' \<and> p' \<in> set (live h')"
  by (simp add: moved_def)

lemma args_apart_moved:
  "moved h (base s) h' (base s') \<Longrightarrow> args_apart h s ap \<Longrightarrow> args_apart h' s' ap"
  unfolding args_apart_def moved_def list_all_iff
  by (auto split: fmt_arg.splits)

lemma args_apart_tl: "args_apart h s ap \<Longrightarrow> args_apart h s (tl ap)"
  by (cases ap) (simp_all add: args_apart_def)

lemma ensure_ok:
  assumes hk: "heap_ok h" and ow: "base s \<in> set (live h)" and v: "valid s"
    and fit: "fits (ni_string_len s) 1"
  shows "\<exists>s1 h1. ensure_one h s = Inr (Some s1, h1) \<and> moved h (base s) h1 (base s1) \<and>
                  valid s1 \<and> content s1 = content s \<and> ni_string_len s1 = ni_string_len s \<and>
                  1 \<le> ni_string_avail s1"
proof (cases "ni_string_avail s = 0")
  case True
  obtain s1 h1 where m: "ni_string_make_room_for h s 1 = Inr (Some s1, h1)"
    and mv: "moved h (base s) h1 (base s1)"
    using mrf_ok[OF hk ow v fit] by blast
  note f = mrf_result[OF v fit m]
  show ?thesis using True m mv f by (simp add: ensure_one_def)
next
  case False
  then show ?thesis using hk ow v by (simp add: ensure_one_def moved_refl)
qed

text \<open>Bytes stored behind the logical end and the length advanced over
  them.\<close>

lemma store_incr:
  assumes v: "valid s" and t5: "htype s \<noteq> NI_STRING_TYPE_5"
    and room: "length str \<le> ni_string_avail s"
  shows "\<exists>s'. (case store_at s (int (ni_string_len s)) str of
                 Inl e \<Rightarrow> Inl e
               | Inr s2 \<Rightarrow> ni_string_incr_len h s2 (int (length str))) = Inr (s', h) \<and>
              valid s' \<and> content s' = content s @ str \<and>
              ni_string_len s' = ni_string_len s + length str \<and> base s' = base s"
proof -
  let ?l = "ni_string_len s"
  let ?n = "?l + length str"
  let ?b = "take ?l (buf s) @ str @ drop ?n (buf s)"
  have fit: "?n \<le> ni_string_alloc s" by (rule avail_room[OF v room])
  have ab: "ni_string_alloc s < length (buf s)"
    and bits: "ni_string_alloc s < 2 ^ field_bits (htype s)"
    and la: "ni_string_len s \<le> ni_string_alloc s"
    using v by (simp_all add: valid_def)
  have al: "ni_string_alloc s = halloc s"
    using t5 by (cases "htype s") (simp_all add: ni_string_alloc_def)
  have nb: "?n < length (buf s)" using fit ab by linarith
  have lb: "length ?b = length (buf s)" using nb by simp
  have vv: "valid (s\<lparr>hlen := ?n, buf := ?b[?n := 0]\<rparr>)"
    by (rule valid_set[OF v fit lb])
  have w: "store_at s (int ?l) str = Inr (s\<lparr>buf := ?b\<rparr>)"
    using nb by (simp add: store_at_def write_bytes_def)
  have i: "ni_string_incr_len h (s\<lparr>buf := ?b\<rparr>) (int (length str)) =
           Inr (s\<lparr>buf := ?b\<rparr>\<lparr>hlen := hlen (s\<lparr>buf := ?b\<rparr>) + nat (int (length str)),
                    buf := (buf (s\<lparr>buf := ?b\<rparr>))[hlen (s\<lparr>buf := ?b\<rparr>) + nat (int (length str)) := 0]\<rparr>, h)"
    using t5 la bits ab fit lb unfolding al
    by (intro incr_len_grow) (simp_all add: ni_string_len_def)
  have c: "take ?n (?b[?n := 0]) = content s @ str"
    using nb by (simp add: content_def)
  show ?thesis
    unfolding w using i vv c
    by (intro exI[of _ "s\<lparr>hlen := ?n, buf := ?b[?n := 0]\<rparr>"])
       (simp add: content_def ni_string_len_def)
qed

lemma ssize_int: "n < 2 ^ 63 \<Longrightarrow> to_ssize_t (int n) = int n"
  by (simp add: to_ssize_t_def)

lemma app_ok:
  assumes hk: "heap_ok h" and ow: "base s \<in> set (live h)" and v: "valid s"
    and av: "1 \<le> ni_string_avail s"
    and b63: "ni_string_len s + length piece < 2 ^ 63"
    and lit: "lit \<longrightarrow> length piece = 1"
    and blk: "\<forall>b. blk = Some b \<longrightarrow> b \<in> set (live h) \<and> b \<noteq> base s"
  shows "\<exists>s2 h2. fmt_app h s (int (ni_string_len s)) (piece, blk, lit) =
                    Inr (s2, int (ni_string_len s2), h2) \<and>
                  moved h (base s) h2 (base s2) \<and> valid s2 \<and>
                  content s2 = content s @ piece \<and>
                  ni_string_len s2 = ni_string_len s + length piece"
proof (cases lit)
  case True
  then obtain x where px: "piece = [x]" using lit by (cases piece) auto
  have t5: "htype s \<noteq> NI_STRING_TYPE_5" using av by (intro avail_nonzero_not5) simp
  have room: "length [x] \<le> ni_string_avail s" using av by simp
  obtain s' where e: "(case store_at s (int (ni_string_len s)) [x] of
                 Inl e \<Rightarrow> Inl e
               | Inr s2 \<Rightarrow> ni_string_incr_len h s2 (int (length [x]))) = Inr (s', h)"
    and p: "valid s'" "content s' = content s @ [x]"
      "ni_string_len s' = ni_string_len s + length [x]" "base s' = base s"
    using store_incr[OF v t5 room, of h] by blast
  have i2: "to_ssize_t (int (ni_string_len s) + 1) = int (ni_string_len s')"
    using ssize_int[of "ni_string_len s + 1"] b63 px p(3) by (simp add: ac_simps)
  have "fmt_putc h s (int (ni_string_len s)) x = Inr (s', int (ni_string_len s'), h)"
    using e i2 by (auto simp add: fmt_putc_def split: sum.splits)
  then show ?thesis
    using True px p hk ow by (simp add: fmt_app_def moved_refl)
next
  case False
  let ?l = "length piece"
  have fit: "fits (ni_string_len s) ?l"
    using b63 by (simp add: fits_def NI_STRING_MAX_PREALLOC_def)
  define g where "g = (if ni_string_avail s < ?l then ni_string_make_room_for h s ?l
                       else Inr (Some s, h))"
  have "\<exists>s1 h1. g = Inr (Some s1, h1) \<and> moved h (base s) h1 (base s1) \<and> valid s1 \<and>
          content s1 = content s \<and> ni_string_len s1 = ni_string_len s \<and>
          ?l \<le> ni_string_avail s1 \<and> htype s1 \<noteq> NI_STRING_TYPE_5"
  proof (cases "ni_string_avail s < ?l")
    case True
    obtain s1 h1 where m: "ni_string_make_room_for h s ?l = Inr (Some s1, h1)"
      and mv: "moved h (base s) h1 (base s1)"
      using mrf_ok[OF hk ow v fit] by blast
    note f = mrf_result[OF v fit m]
    have "htype s1 \<noteq> NI_STRING_TYPE_5"
      using mrf_grow_result(1)[OF v True fit m] by (simp add: grow_type_not5)
    then show ?thesis using True m mv f by (simp add: g_def)
  next
    case F: False
    have "htype s \<noteq> NI_STRING_TYPE_5" using av by (intro avail_nonzero_not5) simp
    then show ?thesis using F hk ow v by (simp add: g_def moved_refl)
  qed
  then obtain s1 h1 where g: "g = Inr (Some s1, h1)" and mv: "moved h (base s) h1 (base s1)"
    and v1: "valid s1" and c1: "content s1 = content s"
    and l1: "ni_string_len s1 = ni_string_len s" and r1: "?l \<le> ni_string_avail s1"
    and t1: "htype s1 \<noteq> NI_STRING_TYPE_5" by blast
  have live: "\<not> (case blk of None \<Rightarrow> False | Some b \<Rightarrow> b \<notin> set (live h1))"
    using blk mv by (auto simp: moved_def split: option.splits)
  obtain s' where e: "(case store_at s1 (int (ni_string_len s1)) piece of
                 Inl e \<Rightarrow> Inl e
               | Inr s2 \<Rightarrow> ni_string_incr_len h1 s2 (int ?l)) = Inr (s', h1)"
    and p: "valid s'" "content s' = content s1 @ piece"
      "ni_string_len s' = ni_string_len s1 + ?l" "base s' = base s1"
    using store_incr[OF v1 t1 r1, of h1] by blast
  have i1: "to_ssize_t (int ?l) = int ?l" using b63 by (intro ssize_int) simp
  have i2: "to_ssize_t (int (ni_string_len s) + int ?l) = int (ni_string_len s')"
    using ssize_int[of "ni_string_len s + ?l"] b63 p(3) l1 by simp
  have "fmt_put h s (int (ni_string_len s)) piece blk = Inr (s', int (ni_string_len s'), h1)"
    using e live i2 unfolding fmt_put_def Let_def g_def[symmetric] g i1 l1
    by (auto split: sum.splits)
  then show ?thesis
    using False p mv c1 l1 by (simp add: fmt_app_def)
qed

lemma render_lit: "c \<noteq> 0x25 \<Longrightarrow> fmt_render (c # f) ap = c # fmt_render f ap"
  by (cases f) simp_all

lemma ok_lit: "c \<noteq> 0x25 \<Longrightarrow> fmt_args_ok (c # f) ap = fmt_args_ok f ap"
  by (cases f) simp_all

lemma rest_spec:
  assumes ok: "fmt_args_ok (c # f) ap" and nz: "0 \<notin> set f"
  shows "fmt_rest ((c # f) @ 0 # rest) ap =
           (fst (fmt_rest (c # f) ap) @ 0 # rest, snd (fmt_rest (c # f) ap))"
    and "fmt_args_ok (fst (fmt_rest (c # f) ap)) (snd (fmt_rest (c # f) ap))"
    and "0 \<notin> set (fst (fmt_rest (c # f) ap))"
    and "length (fst (fmt_rest (c # f) ap)) < length (c # f)"
    and "args_apart h s ap \<Longrightarrow> args_apart h s (snd (fmt_rest (c # f) ap))"
proof -
  have "fmt_rest ((c # f) @ 0 # rest) ap =
           (fst (fmt_rest (c # f) ap) @ 0 # rest, snd (fmt_rest (c # f) ap)) \<and>
        fmt_args_ok (fst (fmt_rest (c # f) ap)) (snd (fmt_rest (c # f) ap)) \<and>
        0 \<notin> set (fst (fmt_rest (c # f) ap)) \<and>
        length (fst (fmt_rest (c # f) ap)) < length (c # f) \<and>
        (args_apart h s ap \<longrightarrow> args_apart h s (snd (fmt_rest (c # f) ap)))"
  proof (cases "c = 0x25")
    case False
    then show ?thesis using ok nz by (simp add: fmt_rest_def ok_lit)
  next
    case True
    then obtain n f2 where f: "f = n # f2" using ok by (cases f) auto
    show ?thesis
      using ok nz True args_apart_tl[of h s ap] unfolding f
      by (cases ap) (auto simp: fmt_rest_def split: if_splits fmt_arg.splits list.splits)
  qed
  then show "fmt_rest ((c # f) @ 0 # rest) ap =
           (fst (fmt_rest (c # f) ap) @ 0 # rest, snd (fmt_rest (c # f) ap))"
    and "fmt_args_ok (fst (fmt_rest (c # f) ap)) (snd (fmt_rest (c # f) ap))"
    and "0 \<notin> set (fst (fmt_rest (c # f) ap))"
    and "length (fst (fmt_rest (c # f) ap)) < length (c # f)"
    and "args_apart h s ap \<Longrightarrow> args_apart h s (snd (fmt_rest (c # f) ap))"
    by simp_all
qed

lemma piece_spec:
  assumes ok: "fmt_args_ok (c # f) ap" and nz: "0 \<notin> set f" and ap: "args_apart h s ap"
  shows "\<exists>piece blk lit.
           fmt_piece h s ((c # f) @ 0 # rest) ap = Inr (piece, blk, lit) \<and>
           (lit \<longrightarrow> length piece = 1) \<and>
           (\<forall>b. blk = Some b \<longrightarrow> b \<in> set (live h) \<and> b \<noteq> base s) \<and>
           fmt_render (c # f) ap =
             piece @ fmt_render (fst (fmt_rest (c # f) ap)) (snd (fmt_rest (c # f) ap))"
proof (cases "c = 0x25")
  case False
  then show ?thesis by (auto simp: fmt_piece_def fmt_rest_def render_lit)
next
  case True
  then obtain n f2 where f: "f = n # f2" using ok by (cases f) auto
  show ?thesis
    using ok nz ap True unfolding f
    by (cases ap)
       (auto simp: fmt_piece_def fmt_rest_def fmt_read_def args_apart_def Let_def content_def
          ll_decimal_64 ll_decimal_32 ull_decimal
          split: if_splits fmt_arg.splits list.splits)
qed

lemma store_zero:
  assumes v: "valid s"
  shows "store_at s (int (ni_string_len s)) [0] = Inr s"
proof -
  let ?l = "ni_string_len s"
  have lb: "?l < length (buf s)" and z: "buf s ! ?l = 0" using v by (simp_all add: valid_def)
  have "take ?l (buf s) @ [0] @ drop (?l + 1) (buf s) = (buf s)[?l := 0]"
    using lb by (simp add: upd_conv_take_nth_drop)
  also have "\<dots> = buf s" by (metis z list_update_id)
  finally have "take ?l (buf s) @ [0] @ drop (?l + 1) (buf s) = buf s" .
  then show ?thesis using lb by (simp add: store_at_def write_bytes_def)
qed

lemma cat_fmt_loop_ok:
  assumes "fmt_args_ok f ap" "0 \<notin> set f" "valid s" "heap_ok h" "base s \<in> set (live h)"
    "args_apart h s ap" "ni_string_len s + length (fmt_render f ap) + 1 < 2 ^ 63"
  shows "\<exists>s' h'. cat_fmt_loop h s (int (ni_string_len s)) (f @ 0 # rest) ap = Inr (s', h') \<and>
                  moved h (base s) h' (base s') \<and> valid s' \<and>
                  content s' = content s @ fmt_render f ap"
  using assms
proof (induction "length f" arbitrary: f ap s h rule: less_induct)
  case less
  note ok = less.prems(1) and nz = less.prems(2) and v = less.prems(3) and hk = less.prems(4)
    and ow = less.prems(5) and ap = less.prems(6) and b = less.prems(7)
  show ?case
  proof (cases f)
    case Nil
    then show ?thesis using store_zero[OF v] hk ow v by (simp add: moved_refl)
  next
    case (Cons c f1)
    have c0: "c \<noteq> 0" and nz1: "0 \<notin> set f1" using nz Cons by auto
    have ok': "fmt_args_ok (c # f1) ap" using ok Cons by simp
    let ?f' = "fst (fmt_rest (c # f1) ap)"
    let ?ap' = "snd (fmt_rest (c # f1) ap)"
    have fit1: "fits (ni_string_len s) 1"
      using b by (simp add: fits_def NI_STRING_MAX_PREALLOC_def)
    obtain s1 h1 where e1: "ensure_one h s = Inr (Some s1, h1)"
      and mv1: "moved h (base s) h1 (base s1)" and v1: "valid s1"
      and c1: "content s1 = content s" and l1: "ni_string_len s1 = ni_string_len s"
      and a1: "1 \<le> ni_string_avail s1"
      using ensure_ok[OF hk ow v fit1] by blast
    have hk1: "heap_ok h1" and ow1: "base s1 \<in> set (live h1)"
      using moved_heap_ok[OF mv1] by simp_all
    have ap1: "args_apart h1 s1 ap" by (rule args_apart_moved[OF mv1 ap])
    obtain piece blk lit where
      pc: "fmt_piece h1 s1 ((c # f1) @ 0 # rest) ap = Inr (piece, blk, lit)"
      and lt: "lit \<longrightarrow> length piece = 1"
      and bk: "\<forall>b. blk = Some b \<longrightarrow> b \<in> set (live h1) \<and> b \<noteq> base s1"
      and rd: "fmt_render (c # f1) ap = piece @ fmt_render ?f' ?ap'"
      using piece_spec[OF ok' nz1 ap1, of rest] by blast
    note rs = rest_spec[OF ok' nz1]
    have b1: "ni_string_len s1 + length piece < 2 ^ 63"
      using b l1 rd Cons by simp
    obtain s2 h2 where
      e2: "fmt_app h1 s1 (int (ni_string_len s1)) (piece, blk, lit) =
             Inr (s2, int (ni_string_len s2), h2)"
      and mv2: "moved h1 (base s1) h2 (base s2)" and v2: "valid s2"
      and c2: "content s2 = content s1 @ piece"
      and l2: "ni_string_len s2 = ni_string_len s1 + length piece"
      using app_ok[OF hk1 ow1 v1 a1 b1 lt bk] by blast
    have hk2: "heap_ok h2" and ow2: "base s2 \<in> set (live h2)"
      using moved_heap_ok[OF mv2] by simp_all
    have ap2: "args_apart h2 s2 ?ap'"
      by (rule args_apart_moved[OF mv2 rs(5)[OF ap1]])
    have b2: "ni_string_len s2 + length (fmt_render ?f' ?ap') + 1 < 2 ^ 63"
      using b l1 l2 rd Cons by simp
    have len: "length ?f' < length f" using rs(4) Cons by simp
    obtain s' h' where
      e3: "cat_fmt_loop h2 s2 (int (ni_string_len s2)) (?f' @ 0 # rest) ?ap' = Inr (s', h')"
      and mv3: "moved h2 (base s2) h' (base s')" and v3: "valid s'"
      and c3: "content s' = content s2 @ fmt_render ?f' ?ap'"
      using less.hyps[OF len rs(2) rs(3) v2 hk2 ow2 ap2 b2] by blast
    have "cat_fmt_loop h s (int (ni_string_len s)) ((c # f1) @ 0 # rest) ap = Inr (s', h')"
      using c0 e1 pc e2 e3 l1 rs(1)[of rest] by (simp add: loop_unfold del: cat_fmt_loop.simps)
    moreover have "moved h (base s) h' (base s')"
      by (rule moved_trans[OF mv1 moved_trans[OF mv2 mv3]])
    moreover have "content s' = content s @ fmt_render f ap"
      using c3 c2 c1 rd Cons by simp
    ultimately show ?thesis using v3 Cons by auto
  qed
qed

lemma cstr_split: "0 \<in> set fmt \<Longrightarrow> \<exists>rest. fmt = cstr fmt @ 0 # rest"
proof -
  assume z: "0 \<in> set fmt"
  let ?d = "dropWhile (\<lambda>b. b \<noteq> 0) fmt"
  have ne: "?d \<noteq> []" using z by (simp add: dropWhile_eq_Nil_conv)
  then have "hd ?d = 0" using hd_dropWhile[of "\<lambda>b. b \<noteq> 0" fmt] by simp
  then have "?d = 0 # tl ?d" using ne by (cases ?d) simp_all
  moreover have "fmt = cstr fmt @ ?d" by (simp add: cstr_def)
  ultimately show ?thesis by metis
qed

lemma cstr_nonzero: "0 \<notin> set (cstr fmt)"
  by (auto simp: cstr_def dest: set_takeWhileD)

lemma length_content: "valid s \<Longrightarrow> length (content s) = ni_string_len s"
  by (simp add: valid_def content_def)

lemma cat_fmt_ok:
  assumes v: "valid s" and hk: "heap_ok h" and ow: "base s \<in> set (live h)"
    and z: "0 \<in> set fmt" and ok: "fmt_args_ok (cstr fmt) ap" and ap: "args_apart h s ap"
    and b: "ni_string_len s + length (fmt_render (cstr fmt) ap) + 1 < 2 ^ 63"
  shows "\<exists>s' h'. ni_string_cat_fmt h s fmt ap = Inr (s', h') \<and> valid s' \<and>
                  content s' = content s @ fmt_render (cstr fmt) ap"
proof -
  obtain rest where f: "fmt = cstr fmt @ 0 # rest" using cstr_split[OF z] by blast
  have i: "to_ssize_t (int (ni_string_len s)) = int (ni_string_len s)"
    using b by (intro ssize_int) simp
  obtain s' h' where
    "cat_fmt_loop h s (int (ni_string_len s)) (cstr fmt @ 0 # rest) ap = Inr (s', h')"
    "valid s'" "content s' = content s @ fmt_render (cstr fmt) ap"
    using cat_fmt_loop_ok[OF ok cstr_nonzero v hk ow ap b, of rest] by blast
  then show ?thesis
    unfolding ni_string_cat_fmt_def i using f by (metis)
qed

lemma valid_s_dashes: "valid s_dashes"
  by (simp add: valid_def s_dashes_def ni_string_len_def ni_string_alloc_def)

lemma heap_ok_heap_tok: "heap_ok heap_tok"
  by (simp add: heap_ok_def heap_tok_def heap0_def)

lemma render_hello: "[0x2D, 0x2D] @ fmt_render (cstr fmt_hello) args_hello = out_hello"
  by (simp add: cstr_def fmt_hello_def args_hello_def out_hello_def decimal_int_def)

lemma ok_hello: "fmt_args_ok (cstr fmt_hello) args_hello"
  by (simp add: cstr_def fmt_hello_def args_hello_def)

lemma render_unsigned: "[0x2D, 0x2D] @ fmt_render (cstr fmt_unsigned) args_unsigned = out_unsigned"
  by (simp add: cstr_def fmt_unsigned_def args_unsigned_def out_unsigned_def)

lemma ok_unsigned: "fmt_args_ok (cstr fmt_unsigned) args_unsigned"
  by (simp add: cstr_def fmt_unsigned_def args_unsigned_def)

text \<open>
  Claim C8. \<open>ni_string_cat_fmt\<close> appends to a valid string what its format
  stands for: for a format that is a C string, with the arguments its verbs
  ask for, on a heap that grants every request, the call returns a valid
  string whose content is the old content followed by \<open>fmt_render\<close> of the
  format, where \<open>%s\<close> and \<open>%S\<close> give the bytes of the string argument,
  \<open>%i\<close>, \<open>%I\<close>, \<open>%u\<close> and \<open>%U\<close> the decimal rendering of the integer
  argument, and any other byte behind a \<open>%\<close> is appended as it is. Appending
  \<open>"Hello %s World %I,%I--"\<close> with \<open>"Hi!"\<close>, \<open>LLONG_MIN\<close> and \<open>LLONG_MAX\<close> to
  \<open>"--"\<close> gives the 60 bytes
  \<open>"--Hello Hi! World -9223372036854775808,9223372036854775807--"\<close>.
\<close>

theorem cat_fmt_renders:
  "(valid s \<and> heap_ok h \<and> base s \<in> set (live h) \<and> 0 \<in> set fmt \<and>
    fmt_args_ok (cstr fmt) ap \<and> args_apart h s ap \<and>
    ni_string_len s + length (fmt_render (cstr fmt) ap) + 1 < 2 ^ 63 \<longrightarrow>
    (\<exists>s' h'. ni_string_cat_fmt h s fmt ap = Inr (s', h') \<and> valid s' \<and>
             content s' = content s @ fmt_render (cstr fmt) ap \<and>
             ni_string_len s' = ni_string_len s + length (fmt_render (cstr fmt) ap))) \<and>
   (\<exists>s' h'. ni_string_cat_fmt heap_tok s_dashes fmt_hello args_hello = Inr (s', h') \<and>
            content s' = out_hello \<and> ni_string_len s' = 60)"
proof (intro conjI impI)
  assume a: "valid s \<and> heap_ok h \<and> base s \<in> set (live h) \<and> 0 \<in> set fmt \<and>
    fmt_args_ok (cstr fmt) ap \<and> args_apart h s ap \<and>
    ni_string_len s + length (fmt_render (cstr fmt) ap) + 1 < 2 ^ 63"
  then obtain s' h' where r: "ni_string_cat_fmt h s fmt ap = Inr (s', h')" and v: "valid s'"
    and c: "content s' = content s @ fmt_render (cstr fmt) ap"
    using cat_fmt_ok[of s h fmt ap] by blast
  have "length (content s') = length (content s) + length (fmt_render (cstr fmt) ap)"
    using c by simp
  then have "ni_string_len s' = ni_string_len s + length (fmt_render (cstr fmt) ap)"
    using a v by (simp add: length_content)
  with r v c show "\<exists>s' h'. ni_string_cat_fmt h s fmt ap = Inr (s', h') \<and> valid s' \<and>
             content s' = content s @ fmt_render (cstr fmt) ap \<and>
             ni_string_len s' = ni_string_len s + length (fmt_render (cstr fmt) ap)" by blast
next
  have c0: "content s_dashes = [0x2D, 0x2D]"
    by (simp add: content_def s_dashes_def ni_string_len_def)
  have l: "length (fmt_render (cstr fmt_hello) args_hello) = 58"
    using arg_cong[OF render_hello, of length] by (simp add: out_hello_def)
  have z: "0 \<in> set fmt_hello" by (simp add: fmt_hello_def)
  have ow: "base s_dashes \<in> set (live heap_tok)" by (simp add: s_dashes_def heap_tok_def)
  have ap: "args_apart heap_tok s_dashes args_hello" by (simp add: args_apart_def args_hello_def)
  have b: "ni_string_len s_dashes + length (fmt_render (cstr fmt_hello) args_hello) + 1 < 2 ^ 63"
    unfolding l by (simp add: s_dashes_def ni_string_len_def)
  obtain s' h' where r: "ni_string_cat_fmt heap_tok s_dashes fmt_hello args_hello = Inr (s', h')"
    and v: "valid s'"
    and c: "content s' = content s_dashes @ fmt_render (cstr fmt_hello) args_hello"
    using cat_fmt_ok[OF valid_s_dashes heap_ok_heap_tok ow z ok_hello ap b] by blast
  have c': "content s' = out_hello" using c unfolding c0 render_hello .
  have "ni_string_len s' = 60"
    using length_content[OF v] c' by (simp add: out_hello_def)
  with r c' show "\<exists>s' h'. ni_string_cat_fmt heap_tok s_dashes fmt_hello args_hello = Inr (s', h') \<and>
            content s' = out_hello \<and> ni_string_len s' = 60" by blast
qed

theorem cat_fmt_renders_witness:
  "valid s_dashes \<and> heap_ok heap_tok \<and> base s_dashes \<in> set (live heap_tok) \<and>
   0 \<in> set fmt_unsigned \<and> fmt_args_ok (cstr fmt_unsigned) args_unsigned \<and>
   args_apart heap_tok s_dashes args_unsigned \<and>
   ni_string_len s_dashes + length (fmt_render (cstr fmt_unsigned) args_unsigned) + 1 < 2 ^ 63 \<and>
   (\<exists>s' h'. ni_string_cat_fmt heap_tok s_dashes fmt_unsigned args_unsigned = Inr (s', h') \<and>
            content s' = out_unsigned \<and> ni_string_len s' = 35)"
proof -
  have c0: "content s_dashes = [0x2D, 0x2D]"
    by (simp add: content_def s_dashes_def ni_string_len_def)
  have l: "length (fmt_render (cstr fmt_unsigned) args_unsigned) = 33"
    using arg_cong[OF render_unsigned, of length] by (simp add: out_unsigned_def)
  have z: "0 \<in> set fmt_unsigned" by (simp add: fmt_unsigned_def)
  have ow: "base s_dashes \<in> set (live heap_tok)" by (simp add: s_dashes_def heap_tok_def)
  have ap: "args_apart heap_tok s_dashes args_unsigned"
    by (simp add: args_apart_def args_unsigned_def)
  have b: "ni_string_len s_dashes + length (fmt_render (cstr fmt_unsigned) args_unsigned) + 1
           < 2 ^ 63"
    unfolding l by (simp add: s_dashes_def ni_string_len_def)
  have p: "valid s_dashes \<and> heap_ok heap_tok \<and> base s_dashes \<in> set (live heap_tok) \<and>
    0 \<in> set fmt_unsigned \<and> fmt_args_ok (cstr fmt_unsigned) args_unsigned \<and>
    args_apart heap_tok s_dashes args_unsigned \<and>
    ni_string_len s_dashes + length (fmt_render (cstr fmt_unsigned) args_unsigned) + 1 < 2 ^ 63"
    using valid_s_dashes heap_ok_heap_tok ow z ok_unsigned ap b by simp
  note t = cat_fmt_renders[of s_dashes heap_tok fmt_unsigned args_unsigned, THEN conjunct1]
  from t p obtain s' h' where
    r: "ni_string_cat_fmt heap_tok s_dashes fmt_unsigned args_unsigned = Inr (s', h')"
    and c: "content s' = content s_dashes @ fmt_render (cstr fmt_unsigned) args_unsigned"
    and n: "ni_string_len s' =
            ni_string_len s_dashes + length (fmt_render (cstr fmt_unsigned) args_unsigned)"
    by blast
  have c': "content s' = out_unsigned" using c unfolding c0 render_unsigned .
  have "ni_string_len s' = 35" using n unfolding l by (simp add: s_dashes_def ni_string_len_def)
  with p r c' show ?thesis by blast
qed

text \<open>A format that ends in a lone \<open>%\<close> is outside the theorem: the code
  appends the terminator as a byte, steps over it and reads the format behind
  its end. With the two bytes \<open>"%"\<close> as the whole array the read is out of
  bounds.\<close>

lemma cat_fmt_lone_percent:
  assumes v: "valid s" and hk: "heap_ok h" and ow: "base s \<in> set (live h)"
    and b: "ni_string_len s + 2 < 2 ^ 63"
  shows "ni_string_cat_fmt h s [0x25, 0] ap = Inl Out_of_bounds"
proof -
  have fit1: "fits (ni_string_len s) 1"
    using b by (simp add: fits_def NI_STRING_MAX_PREALLOC_def)
  obtain s1 h1 where e1: "ensure_one h s = Inr (Some s1, h1)"
    and mv1: "moved h (base s) h1 (base s1)" and v1: "valid s1"
    and l1: "ni_string_len s1 = ni_string_len s" and a1: "1 \<le> ni_string_avail s1"
    using ensure_ok[OF hk ow v fit1] by blast
  have hk1: "heap_ok h1" and ow1: "base s1 \<in> set (live h1)"
    using moved_heap_ok[OF mv1] by simp_all
  have pc: "fmt_piece h1 s1 [0x25, 0] ap = Inr ([0], None, True)"
    by (simp add: fmt_piece_def)
  have rs: "fmt_rest [0x25, 0] ap = ([], ap)" by (simp add: fmt_rest_def)
  have b1: "ni_string_len s1 + length [0::byte] < 2 ^ 63" using b l1 by simp
  obtain s2 h2 where
    e2: "fmt_app h1 s1 (int (ni_string_len s1)) ([0], None, True) =
           Inr (s2, int (ni_string_len s2), h2)"
    using app_ok[OF hk1 ow1 v1 a1 b1, of True None] by auto
  have i: "to_ssize_t (int (ni_string_len s)) = int (ni_string_len s)"
    using b by (intro ssize_int) simp
  show ?thesis
    unfolding ni_string_cat_fmt_def i
    using e1 pc e2 l1 rs by (simp add: loop_unfold del: cat_fmt_loop.simps(2))
qed

end
